theory Spec2Isabelle
  imports Complex_Main "HOL-Library.AList" "HOL-Library.Log_Nat"
begin

section \<open>JavaScript objects as ordered property lists\<close>

text \<open>
  The scripts accumulate their groupings in plain objects (\<^verbatim>\<open>const appMap = {}\<close>) and read
  them back with \<^verbatim>\<open>Object.entries\<close>. An object is modelled by the list of its own
  properties in creation order; \<open>AList.update\<close> overwrites a property in place and appends a
  new one at the end, as an assignment \<^verbatim>\<open>o[k] = v\<close> does.

  \<^verbatim>\<open>Object.entries\<close> does not simply follow creation order: keys that are array indices
  (canonical decimal strings below \<open>2^32 - 1 = 4294967295\<close>) come first, in ascending numeric order, and
  all other string keys follow in creation order.
\<close>

type_synonym ('k, 'v) js_object = "('k \<times> 'v) list"

definition is_digit :: "char \<Rightarrow> bool" where
  "is_digit c = (c \<in> set ''0123456789'')"

definition digit_val :: "char \<Rightarrow> int" where
  "digit_val c = int (length (takeWhile (\<lambda>d. d \<noteq> c) ''0123456789''))"

definition dec_val :: "string \<Rightarrow> int" where
  "dec_val s = foldl (\<lambda>n c. 10 * n + digit_val c) 0 s"

definition array_index :: "string \<Rightarrow> int option" where
  "array_index s =
     (if s \<noteq> [] \<and> list_all is_digit s \<and> (if hd s = CHR ''0'' then s = ''0'' else True)
         \<and> dec_val s < 4294967295
      then Some (dec_val s) else None)"

definition index_keys :: "('k \<Rightarrow> int option) \<Rightarrow> ('k, 'v) js_object \<Rightarrow> ('k, 'v) js_object" where
  "index_keys idx obj = filter (\<lambda>e. idx (fst e) \<noteq> None) obj"

definition string_keys :: "('k \<Rightarrow> int option) \<Rightarrow> ('k, 'v) js_object \<Rightarrow> ('k, 'v) js_object" where
  "string_keys idx obj = filter (\<lambda>e. idx (fst e) = None) obj"

definition entries :: "('k \<Rightarrow> int option) \<Rightarrow> ('k, 'v) js_object \<Rightarrow> ('k \<times> 'v) list" where
  "entries idx obj =
     sort_key (\<lambda>e. the (idx (fst e))) (index_keys idx obj) @ string_keys idx obj"

text \<open>
  A property read \<^verbatim>\<open>o[k]\<close> also finds the members every object inherits from
  \<^verbatim>\<open>Object.prototype\<close>. They are truthy, so \<^verbatim>\<open>if (!o[k]) o[k] = ...\<close> creates nothing
  for such a key, and the following writes land on the inherited member, not on \<open>o\<close>.
\<close>

definition inherited :: "string \<Rightarrow> bool" where
  "inherited k = (k \<in> set [''constructor'', ''toString'', ''toLocaleString'', ''valueOf'',
     ''hasOwnProperty'', ''isPrototypeOf'', ''propertyIsEnumerable'', ''__proto__'',
     ''__defineGetter__'', ''__defineSetter__'', ''__lookupGetter__'', ''__lookupSetter__''])"

text \<open>
  \<^verbatim>\<open>Array.prototype.sort\<close> is stable (Node.js 18+ is required by the README). With the
  comparator \<^verbatim>\<open>(a, b) => b[1].count - a[1].count\<close> it is the stable sort on the negated
  count.
\<close>

definition sort_desc :: "('a \<Rightarrow> nat) \<Rightarrow> 'a list \<Rightarrow> 'a list" where
  "sort_desc f xs = sort_key (\<lambda>e. - int (f e)) xs"


section \<open>Rows of the History table\<close>

text \<open>
  A row as the aggregation reads it: the timestamp text, the bundle identifier of the
  application (\<open>None\<close> for SQL NULL) and the word count (\<open>None\<close> for NULL). The other
  selected columns do not take part in the groupings verified here.
\<close>

record row =
  timestamp :: string
  app :: "string option"
  numWords :: "int option"

definition words_of :: "row \<Rightarrow> int" where
  \<comment> \<open>\<^verbatim>\<open>r.numWords || 0\<close>\<close>
  "words_of r = (case numWords r of None \<Rightarrow> 0 | Some n \<Rightarrow> n)"

definition bundle_of :: "row \<Rightarrow> string" where
  \<comment> \<open>\<^verbatim>\<open>r.app || "Unknown"\<close>: NULL and the empty string are falsy\<close>
  "bundle_of r = (case app r of None \<Rightarrow> ''Unknown'' | Some a \<Rightarrow> if a = [] then ''Unknown'' else a)"

definition totalDictations :: "row list \<Rightarrow> nat" where
  "totalDictations rows = length rows"

definition totalWords :: "row list \<Rightarrow> int" where
  "totalWords rows = foldl (\<lambda>sum r. sum + words_of r) 0 rows"


section \<open>Application names\<close>

definition app_names :: "(string \<times> string) list" where
  "app_names =
    [(''dev.warp.Warp-Stable'', ''Warp''),
     (''com.apple.Safari'', ''Safari''),
     (''com.google.Chrome'', ''Chrome''),
     (''com.tinyspeck.slackmacgap'', ''Slack''),
     (''com.microsoft.VSCode'', ''VS Code''),
     (''com.todesktop.230313mzl4w4u92'', ''Cursor''),
     (''com.linear'', ''Linear''),
     (''com.apple.MobileSMS'', ''Messages''),
     (''com.apple.mail'', ''Mail''),
     (''com.apple.Notes'', ''Notes''),
     (''com.openai.chat'', ''ChatGPT''),
     (''com.superhuman.electron'', ''Superhuman''),
     (''com.figma.Desktop'', ''Figma''),
     (''com.apple.finder'', ''Finder''),
     (''com.apple.Terminal'', ''Terminal''),
     (''md.obsidian'', ''Obsidian''),
     (''notion.id'', ''Notion''),
     (''com.codeium.windsurf'', ''Windsurf''),
     (''company.thebrowser.Browser'', ''Arc''),
     (''net.shinyfrog.bear'', ''Bear''),
     (''com.hnc.Discord'', ''Discord''),
     (''com.spotify.client'', ''Spotify''),
     (''us.zoom.xos'', ''Zoom'')]"

definition last_part :: "string \<Rightarrow> string" where
  \<comment> \<open>\<^verbatim>\<open>parts[parts.length - 1]\<close> of \<^verbatim>\<open>bundleId.split(".")\<close>\<close>
  "last_part s = rev (takeWhile (\<lambda>c. c \<noteq> CHR ''.'') (rev s))"

definition hyphens_to_spaces :: "string \<Rightarrow> string" where
  \<comment> \<open>\<^verbatim>\<open>.replace(/-/g, " ")\<close>\<close>
  "hyphens_to_spaces s = map (\<lambda>c. if c = CHR ''-'' then CHR '' '' else c) s"

text \<open>
  \<open>friendlyAppName\<close> is the same function in the daily, weekly and monthly script. The
  table lookup \<^verbatim>\<open>map[bundleId]\<close> of the source would return an inherited member, not a
  string, for an identifier that is itself the name of a member of \<^verbatim>\<open>Object.prototype\<close>;
  the model covers all other identifiers, and \<open>plain_apps\<close> below states that restriction.
\<close>

definition friendlyAppName :: "string \<Rightarrow> string" where
  "friendlyAppName bundleId =
     (if bundleId = [] then ''Unknown''
      else case map_of app_names bundleId of
             Some name \<Rightarrow> name
           | None \<Rightarrow> hyphens_to_spaces (last_part bundleId))"

definition app_name_of :: "row \<Rightarrow> string" where
  "app_name_of r = friendlyAppName (bundle_of r)"

definition plain_apps :: "row list \<Rightarrow> bool" where
  "plain_apps rows =
     list_all (\<lambda>r. \<not> inherited (bundle_of r) \<and> \<not> inherited (app_name_of r)) rows"


section \<open>Application breakdown\<close>

record bucket =
  count :: nat
  words :: int

record app_bucket = bucket +
  bundleId :: string

text \<open>
  One turn of the loop
  \<^verbatim>\<open>if (!appMap[appName]) appMap[appName] = { count: 0, words: 0, bundleId };
  appMap[appName].count++; appMap[appName].words += r.numWords || 0;\<close>
\<close>

definition app_step :: "(string, app_bucket) js_object \<Rightarrow> row \<Rightarrow> (string, app_bucket) js_object" where
  "app_step appMap r =
     (let appName = app_name_of r;
          m1 = (if map_of appMap appName = None \<and> \<not> inherited appName
                then AList.update appName \<lparr>count = 0, words = 0, bundleId = bundle_of r\<rparr> appMap
                else appMap)
      in case map_of m1 appName of
           Some b \<Rightarrow> AList.update appName (b\<lparr>count := count b + 1, words := words b + words_of r\<rparr>) m1
         | None \<Rightarrow> m1)"

definition appMap :: "row list \<Rightarrow> (string, app_bucket) js_object" where
  "appMap rows = foldl app_step [] rows"

definition appsSorted :: "row list \<Rightarrow> (string \<times> app_bucket) list" where
  "appsSorted rows = sort_desc (\<lambda>e. count (snd e)) (entries array_index (appMap rows))"

section \<open>Dates\<close>

text \<open>
  A \<^verbatim>\<open>Date\<close> is its time value, the milliseconds since 1970-01-01T00:00Z. The functions
  below are the abstract operations of the ECMAScript specification under their names there.
  The local time zone is a parameter \<open>tz\<close>: the offset of local time from UTC in minutes
  (\<open>60\<close> for UTC+01:00), taken as constant during a run.
\<close>

definition msPerDay :: int where
  "msPerDay = 86400000"

definition Day :: "int \<Rightarrow> int" where
  "Day t = t div msPerDay"

definition TimeWithinDay :: "int \<Rightarrow> int" where
  "TimeWithinDay t = t mod msPerDay"

definition DaysInYear :: "int \<Rightarrow> int" where
  "DaysInYear y =
     (if y mod 4 \<noteq> 0 then 365 else if y mod 100 \<noteq> 0 then 366 else if y mod 400 \<noteq> 0 then 365 else 366)"

definition DayFromYear :: "int \<Rightarrow> int" where
  "DayFromYear y = 365 * (y - 1970) + (y - 1969) div 4 - (y - 1901) div 100 + (y - 1601) div 400"

text \<open>
  \<open>YearFromTime t\<close> is specified as the largest \<open>y\<close> with \<open>DayFromYear y \<le> Day t\<close>. It is
  computed here from the average year length of 146097/400 days, which is off by at most one
  year.
\<close>

definition YearFromDay :: "int \<Rightarrow> int" where
  "YearFromDay d =
     (let y = 1970 + (400 * d) div 146097
      in if DayFromYear (y + 1) \<le> d then y + 1 else if DayFromYear y \<le> d then y else y - 1)"

definition YearFromTime :: "int \<Rightarrow> int" where
  "YearFromTime t = YearFromDay (Day t)"

definition InLeapYear :: "int \<Rightarrow> int" where
  "InLeapYear t = (if DaysInYear (YearFromTime t) = 366 then 1 else 0)"

definition DayWithinYear :: "int \<Rightarrow> int" where
  "DayWithinYear t = Day t - DayFromYear (YearFromTime t)"

definition month_start :: "int \<Rightarrow> int \<Rightarrow> int" where
  \<comment> \<open>day within the year on which month \<open>m\<close> (0 = January) begins; \<open>leap\<close> is 0 or 1\<close>
  "month_start m leap =
     (if m = 0 then 0 else if m = 1 then 31 else if m = 2 then 59 + leap
      else if m = 3 then 90 + leap else if m = 4 then 120 + leap else if m = 5 then 151 + leap
      else if m = 6 then 181 + leap else if m = 7 then 212 + leap else if m = 8 then 243 + leap
      else if m = 9 then 273 + leap else if m = 10 then 304 + leap else 334 + leap)"

definition MonthFromTime :: "int \<Rightarrow> int" where
  "MonthFromTime t =
     (let d = DayWithinYear t; leap = InLeapYear t
      in if d < 31 then 0 else if d < 59 + leap then 1 else if d < 90 + leap then 2
         else if d < 120 + leap then 3 else if d < 151 + leap then 4 else if d < 181 + leap then 5
         else if d < 212 + leap then 6 else if d < 243 + leap then 7 else if d < 273 + leap then 8
         else if d < 304 + leap then 9 else if d < 334 + leap then 10 else 11)"

definition DateFromTime :: "int \<Rightarrow> int" where
  "DateFromTime t = DayWithinYear t - month_start (MonthFromTime t) (InLeapYear t) + 1"

definition WeekDay :: "int \<Rightarrow> int" where
  "WeekDay t = (Day t + 4) mod 7"

definition HourFromTime :: "int \<Rightarrow> int" where
  "HourFromTime t = (t div 3600000) mod 24"

definition LocalTime :: "int \<Rightarrow> int \<Rightarrow> int" where
  "LocalTime tz t = t + tz * 60000"

definition UTC :: "int \<Rightarrow> int \<Rightarrow> int" where
  "UTC tz t = t - tz * 60000"

definition MakeDay :: "int \<Rightarrow> int \<Rightarrow> int \<Rightarrow> int" where
  "MakeDay year month date =
     (let ym = year + month div 12; mn = month mod 12
      in DayFromYear ym + month_start mn (if DaysInYear ym = 366 then 1 else 0) + date - 1)"

definition MakeDate :: "int \<Rightarrow> int \<Rightarrow> int" where
  "MakeDate day time = day * msPerDay + time"

text \<open>
  The constructions and methods the scripts use. \<^verbatim>\<open>new Date(year, monthIndex, day)\<close> is
  local midnight, with two-digit years counted from 1900; \<^verbatim>\<open>new Date(s + "T12:00:00")\<close>
  for a date string \<open>s\<close> = \<^verbatim>\<open>YYYY-MM-DD\<close> is local noon of that date, and the date string is
  represented by its three numbers.
\<close>

type_synonym ymd = "int \<times> int \<times> int"

definition new_Date :: "int \<Rightarrow> int \<Rightarrow> int \<Rightarrow> int \<Rightarrow> int" where
  "new_Date tz year monthIndex day =
     (let yr = (if 0 \<le> year \<and> year \<le> 99 then 1900 + year else year)
      in UTC tz (MakeDate (MakeDay yr monthIndex day) 0))"

definition local_noon :: "int \<Rightarrow> ymd \<Rightarrow> int" where
  "local_noon tz s = UTC tz (MakeDate (MakeDay (fst s) (fst (snd s) - 1) (snd (snd s))) 43200000)"

definition getDay :: "int \<Rightarrow> int \<Rightarrow> int" where
  "getDay tz t = WeekDay (LocalTime tz t)"

definition getDate :: "int \<Rightarrow> int \<Rightarrow> int" where
  "getDate tz t = DateFromTime (LocalTime tz t)"

definition setDate :: "int \<Rightarrow> int \<Rightarrow> int \<Rightarrow> int" where
  "setDate tz t date =
     (let lt = LocalTime tz t
      in UTC tz (MakeDate (MakeDay (YearFromTime lt) (MonthFromTime lt) date) (TimeWithinDay lt)))"

definition utc_date :: "int \<Rightarrow> ymd" where
  \<comment> \<open>the calendar date of a time value in UTC, which is what \<^verbatim>\<open>toISOString\<close> prints\<close>
  "utc_date t = (YearFromTime t, MonthFromTime t + 1, DateFromTime t)"

definition digit_char :: "int \<Rightarrow> char" where
  \<comment> \<open>the character of the last decimal digit of \<open>n\<close>\<close>
  "digit_char n = ''0123456789'' ! nat (n mod 10)"

definition pad2 :: "int \<Rightarrow> string" where
  \<comment> \<open>\<^verbatim>\<open>String(n).padStart(2, "0")\<close> for \<open>0 \<le> n < 100\<close>\<close>
  "pad2 n = [digit_char (n div 10 mod 10), digit_char (n mod 10)]"

definition pad4 :: "int \<Rightarrow> string" where
  "pad4 n = pad2 (n div 100 mod 100) @ pad2 (n mod 100)"

definition iso :: "ymd \<Rightarrow> string" where
  \<comment> \<open>the text \<^verbatim>\<open>YYYY-MM-DD\<close> of a date with a year from 0 to 9999\<close>
  "iso s = pad4 (fst s) @ ''-'' @ pad2 (fst (snd s)) @ ''-'' @ pad2 (snd (snd s))"

definition iso_date :: "int \<Rightarrow> ymd" where
  \<comment> \<open>\<^verbatim>\<open>t.toISOString().slice(0, 10)\<close>, as a date\<close>
  "iso_date t = utc_date t"


section \<open>Period ranges\<close>

text \<open>
  \<open>num_str\<close> is \<^verbatim>\<open>String(n)\<close> for \<open>0 \<le> n < 1000000\<close>, which covers every year of a
  \<^verbatim>\<open>Date\<close>.
\<close>

definition num_str :: "int \<Rightarrow> string" where
  "num_str n =
     (if n < 10 then [digit_char n]
      else if n < 100 then pad2 n
      else if n < 1000 then digit_char (n div 100) # pad2 (n mod 100)
      else if n < 10000 then pad4 n
      else if n < 100000 then digit_char (n div 10000) # pad4 (n mod 10000)
      else pad2 (n div 10000) @ pad4 (n mod 10000))"


record week_range =
  start :: ymd
  finish :: ymd

definition getWeekRange :: "int \<Rightarrow> ymd \<Rightarrow> week_range" where
  "getWeekRange tz refDate =
     (let d = local_noon tz refDate;
          day = getDay tz d;
          diffToMon = (if day = 0 then - 6 else 1 - day);
          monday = setDate tz d (getDate tz d + diffToMon);
          sunday = setDate tz monday (getDate tz monday + 6)
      in \<lparr>start = iso_date monday, finish = iso_date sunday\<rparr>)"

definition monthNames :: "string list" where
  "monthNames = [''January'', ''February'', ''March'', ''April'', ''May'', ''June'', ''July'',
     ''August'', ''September'', ''October'', ''November'', ''December'']"

record month_range = week_range +
  year :: int
  month :: int
  label :: string
  daysInMonth :: int

definition getMonthRange :: "int \<Rightarrow> int \<times> int \<Rightarrow> month_range" where
  "getMonthRange tz yearMonth =
     (let y = fst yearMonth;
          m = snd yearMonth;
          firstDay = new_Date tz y (m - 1) 1;
          lastDay = new_Date tz y m 0
      in \<lparr>start = iso_date firstDay, finish = iso_date lastDay,
          year = y, month = m,
          label = monthNames ! nat (MonthFromTime (LocalTime tz firstDay)) @ '' ''
                    @ num_str (YearFromTime (LocalTime tz firstDay)),
          daysInMonth = getDate tz lastDay\<rparr>)"


section \<open>Hour histogram\<close>

text \<open>
  \<^verbatim>\<open>new Date(r.timestamp)\<close> parses the stored text with the engine's date parser, which is
  the parameter \<open>parse\<close>: the time value of a text, or \<open>None\<close> when the text is not a date
  (the time value is then NaN, and so is \<^verbatim>\<open>getHours()\<close>). The keys of \<open>hourMap\<close> are the
  hours, with \<open>None\<close> for the key \<^verbatim>\<open>NaN\<close>; hours are array indices and \<^verbatim>\<open>NaN\<close> is not.
\<close>

definition getHours :: "(string \<Rightarrow> int option) \<Rightarrow> int \<Rightarrow> string \<Rightarrow> int option" where
  "getHours parse tz ts =
     (case parse ts of None \<Rightarrow> None | Some t \<Rightarrow> Some (HourFromTime (LocalTime tz t)))"

definition hour_step ::
  "(string \<Rightarrow> int option) \<Rightarrow> int \<Rightarrow> (int option, nat) js_object \<Rightarrow> row \<Rightarrow> (int option, nat) js_object" where
  \<comment> \<open>\<^verbatim>\<open>hourMap[hour] = (hourMap[hour] || 0) + 1\<close>\<close>
  "hour_step parse tz hourMap r =
     (let hour = getHours parse tz (timestamp r)
      in AList.update hour ((case map_of hourMap hour of None \<Rightarrow> 0 | Some c \<Rightarrow> c) + 1) hourMap)"

definition hourMap :: "(string \<Rightarrow> int option) \<Rightarrow> int \<Rightarrow> row list \<Rightarrow> (int option, nat) js_object" where
  "hourMap parse tz rows = foldl (hour_step parse tz) [] rows"

definition hour_index :: "int option \<Rightarrow> int option" where
  "hour_index hour = hour"

definition peakHour :: "(string \<Rightarrow> int option) \<Rightarrow> int \<Rightarrow> row list \<Rightarrow> (int option \<times> nat) option" where
  \<comment> \<open>\<^verbatim>\<open>Object.entries(hourMap).sort((a, b) => b[1] - a[1])[0]\<close>\<close>
  "peakHour parse tz rows =
     (case sort_desc snd (entries hour_index (hourMap parse tz rows)) of
        [] \<Rightarrow> None
      | e # _ \<Rightarrow> Some e)"


section \<open>Daily breakdown\<close>

record day_bucket = bucket +
  apps :: "string list"

text \<open>
  One turn of the loop over the rows. The key is \<^verbatim>\<open>r.timestamp.slice(0, 10)\<close>; the set of
  applications of a day is kept as a list without repetitions, and only its size is used.
\<close>

definition day_step :: "(string, day_bucket) js_object \<Rightarrow> row \<Rightarrow> (string, day_bucket) js_object" where
  "day_step dayMap r =
     (let day = take 10 (timestamp r);
          m1 = (if map_of dayMap day = None \<and> \<not> inherited day
                then AList.update day \<lparr>count = 0, words = 0, apps = []\<rparr> dayMap
                else dayMap)
      in case map_of m1 day of
           Some b \<Rightarrow>
             AList.update day
               (b\<lparr>count := count b + 1, words := words b + words_of r,
                  apps := (case app r of None \<Rightarrow> apps b
                           | Some a \<Rightarrow> if a = [] then apps b else List.insert a (apps b))\<rparr>) m1
         | None \<Rightarrow> m1)"

definition dayMap :: "row list \<Rightarrow> (string, day_bucket) js_object" where
  "dayMap rows = foldl day_step [] rows"

definition day_data :: "(string, day_bucket) js_object \<Rightarrow> string \<Rightarrow> day_bucket" where
  \<comment> \<open>\<^verbatim>\<open>dayMap[key] || { count: 0, words: 0, duration: 0, apps: new Set() }\<close>\<close>
  "day_data m key = (case map_of m key of Some b \<Rightarrow> b | None \<Rightarrow> \<lparr>count = 0, words = 0, apps = []\<rparr>)"

definition dayNames :: "string list" where
  "dayNames = [''Sun'', ''Mon'', ''Tue'', ''Wed'', ''Thu'', ''Fri'', ''Sat'']"

record day_entry = bucket +
  date :: string
  dayName :: string
  appCount :: nat

definition week_entry :: "int \<Rightarrow> (string, day_bucket) js_object \<Rightarrow> int \<Rightarrow> day_entry" where
  "week_entry tz m cur =
     (let key = iso (iso_date cur);
          data = day_data m key
      in \<lparr>count = count data, words = words data, date = key,
          dayName = dayNames ! nat (getDay tz cur), appCount = length (apps data)\<rparr>)"

text \<open>
  The weekly script fills the days with
  \<^verbatim>\<open>while (cur <= endD) { ...; daySorted.push(...); cur.setDate(cur.getDate() + 1); }\<close>
\<close>

partial_function (option) fill_days ::
  "int \<Rightarrow> (string, day_bucket) js_object \<Rightarrow> int \<Rightarrow> int \<Rightarrow> day_entry list \<Rightarrow> day_entry list option" where
  "fill_days tz m cur endD acc =
     (if cur \<le> endD
      then fill_days tz m (setDate tz cur (getDate tz cur + 1)) endD (acc @ [week_entry tz m cur])
      else Some acc)"

declare fill_days.simps [code]

definition daySorted :: "int \<Rightarrow> week_range \<Rightarrow> row list \<Rightarrow> day_entry list option" where
  "daySorted tz week rows =
     fill_days tz (dayMap rows) (local_noon tz (start week)) (local_noon tz (finish week)) []"

text \<open>
  The monthly script builds the key of each day from the year, the month and the day number:
  \<^verbatim>\<open>`${year}-${String(month).padStart(2, "0")}-${String(d).padStart(2, "0")}`\<close>
\<close>

definition month_key :: "month_range \<Rightarrow> int \<Rightarrow> string" where
  "month_key mr d = num_str (year mr) @ ''-'' @ pad2 (month mr) @ ''-'' @ pad2 d"

record month_day = day_entry +
  dayOfWeek :: int
  dayNum :: int

definition month_entry :: "int \<Rightarrow> month_range \<Rightarrow> (string, day_bucket) js_object \<Rightarrow> int \<Rightarrow> month_day" where
  "month_entry tz mr m d =
     (let key = month_key mr d;
          dt = local_noon tz (year mr, month mr, d);
          data = day_data m key
      in \<lparr>count = count data, words = words data, date = key,
          dayName = dayNames ! nat (getDay tz dt), appCount = length (apps data),
          dayOfWeek = getDay tz dt, dayNum = d\<rparr>)"

definition allDays :: "int \<Rightarrow> month_range \<Rightarrow> row list \<Rightarrow> month_day list" where
  \<comment> \<open>\<^verbatim>\<open>for (let d = 1; d <= monthRange.daysInMonth; d++) allDays.push(...)\<close>\<close>
  "allDays tz mr rows = map (month_entry tz mr (dayMap rows)) [1..daysInMonth mr]"


section \<open>Numbers\<close>

text \<open>
  A JavaScript number is an IEEE 754 binary64 value. Sums and counts of integers below
  \<open>2^53\<close> are exact; a quotient is the exact quotient rounded to the nearest binary64 value,
  ties to the even significand. \<open>fl\<close> is that rounding on rationals, for values in the normal
  range (every quotient and product here is between \<open>2^-53\<close> and \<open>2^60\<close>).
  \<^verbatim>\<open>Math.round(x)\<close> is the integer nearest to \<open>x\<close>, the upper one when two are equally
  near: \<open>\<lfloor>x + 1/2\<rfloor>\<close>.
\<close>

definition round_ties_even :: "rat \<Rightarrow> int" where
  "round_ties_even x =
     (let f = \<lfloor>x\<rfloor>; r = x - of_int f
      in if r < 1 / 2 then f else if 1 / 2 < r then f + 1 else if even f then f else f + 1)"

definition exponent_of :: "rat \<Rightarrow> int" where
  \<comment> \<open>the \<open>e\<close> with \<open>2^e \<le> x < 2^(e+1)\<close>, for \<open>x > 0\<close>\<close>
  "exponent_of x =
     (let e = bitlen (fst (quotient_of x)) - bitlen (snd (quotient_of x))
      in if 2 powi e \<le> x then e else e - 1)"

definition fl :: "rat \<Rightarrow> rat" where
  "fl x =
     (if x = 0 then 0
      else let ulp = 2 powi (exponent_of \<bar>x\<bar> - 52)
           in sgn x * of_int (round_ties_even (\<bar>x\<bar> / ulp)) * ulp)"

definition js_div :: "rat \<Rightarrow> rat \<Rightarrow> rat" where
  "js_div a b = fl (a / b)"

definition js_mul :: "rat \<Rightarrow> rat \<Rightarrow> rat" where
  "js_mul a b = fl (a * b)"

definition Math_round :: "rat \<Rightarrow> int" where
  "Math_round x = \<lfloor>x + 1 / 2\<rfloor>"

definition percentage :: "nat \<Rightarrow> nat \<Rightarrow> int" where
  \<comment> \<open>\<^verbatim>\<open>Math.round((stats.count / totalDictations) * 100)\<close>\<close>
  "percentage cnt n = Math_round (js_mul (js_div (of_nat cnt) (of_nat n)) 100)"

definition percentages :: "row list \<Rightarrow> int list" where
  "percentages rows = map (\<lambda>e. percentage (count (snd e)) (totalDictations rows)) (appsSorted rows)"


section \<open>Daily averages of the month\<close>

definition activeDays :: "int \<Rightarrow> month_range \<Rightarrow> row list \<Rightarrow> nat" where
  "activeDays tz mr rows = length (filter (\<lambda>d. count d > 0) (allDays tz mr rows))"

definition avgDictationsPerDay :: "int \<Rightarrow> month_range \<Rightarrow> row list \<Rightarrow> int" where
  "avgDictationsPerDay tz mr rows =
     (if activeDays tz mr rows > 0
      then Math_round (js_div (of_nat (totalDictations rows)) (of_nat (activeDays tz mr rows)))
      else 0)"

definition avgWordsPerDay :: "int \<Rightarrow> month_range \<Rightarrow> row list \<Rightarrow> int" where
  "avgWordsPerDay tz mr rows =
     (if activeDays tz mr rows > 0
      then Math_round (js_div (of_int (totalWords rows)) (of_nat (activeDays tz mr rows)))
      else 0)"


section \<open>The three scripts\<close>

text \<open>
  Each script checks that the database file exists, runs its query, stops with a message
  when the query returns no row, and otherwise aggregates and renders. \<open>Missing\<close> is the
  absent file; \<open>Opened rows\<close> is the opened store with the rows the query returns. The
  outcome records what the run printed or wrote; rendering itself is not modelled, so a
  report is the data handed to \<^verbatim>\<open>printCLI\<close> or \<^verbatim>\<open>generateHTML\<close>.
\<close>

datatype store = Missing | Opened "row list"

datatype 'd outcome =
    DatabaseMissing
  | NoDictations string
  | TextReport 'd
  | HtmlReport 'd

definition exit_code :: "'d outcome \<Rightarrow> int" where
  \<comment> \<open>\<^verbatim>\<open>process.exit(1)\<close> for the missing database, \<^verbatim>\<open>process.exit(0)\<close> or a normal end otherwise\<close>
  "exit_code out = (case out of DatabaseMissing \<Rightarrow> 1 | NoDictations _ \<Rightarrow> 0 | TextReport _ \<Rightarrow> 0 | HtmlReport _ \<Rightarrow> 0)"

definition document_written :: "'d outcome \<Rightarrow> bool" where
  \<comment> \<open>\<^verbatim>\<open>fs.writeFileSync(outPath, html)\<close> is reached\<close>
  "document_written out = (case out of HtmlReport _ \<Rightarrow> True | DatabaseMissing \<Rightarrow> False | NoDictations _ \<Rightarrow> False | TextReport _ \<Rightarrow> False)"

definition report_of :: "'d outcome \<Rightarrow> 'd option" where
  "report_of out = (case out of TextReport d \<Rightarrow> Some d | HtmlReport d \<Rightarrow> Some d | DatabaseMissing \<Rightarrow> None | NoDictations _ \<Rightarrow> None)"

record report =
  dictations :: nat
  word_total :: int
  apps_ranked :: "(string \<times> app_bucket) list"
  shares :: "int list"
  peak :: "(int option \<times> nat) option"

definition aggregate :: "(string \<Rightarrow> int option) \<Rightarrow> int \<Rightarrow> row list \<Rightarrow> report" where
  "aggregate parse tz rows =
     \<lparr>dictations = totalDictations rows, word_total = totalWords rows,
      apps_ranked = appsSorted rows, shares = percentages rows, peak = peakHour parse tz rows\<rparr>"

definition render :: "bool \<Rightarrow> 'd \<Rightarrow> 'd outcome" where
  \<comment> \<open>\<^verbatim>\<open>if (flagHTML) { ...; fs.writeFileSync(outPath, html); ... } else { printCLI(data); }\<close>\<close>
  "render flagHTML d = (if flagHTML then HtmlReport d else TextReport d)"

definition daily_recap ::
  "(string \<Rightarrow> int option) \<Rightarrow> int \<Rightarrow> bool \<Rightarrow> string \<Rightarrow> store \<Rightarrow> report outcome" where
  "daily_recap parse tz flagHTML targetDate db =
     (case db of
        Missing \<Rightarrow> DatabaseMissing
      | Opened rows \<Rightarrow>
          if length rows = 0
          then NoDictations (''No Wispr Flow dictations found for '' @ targetDate @ ''.'')
          else render flagHTML (aggregate parse tz rows))"

record weekly_report = report +
  days :: "day_entry list"

text \<open>
  The weekly and the monthly script compute their period before they look at the database.
  The weekly run has a result only if its loop over the days ends, hence the \<open>option\<close>.
\<close>

definition weekly_recap ::
  "(string \<Rightarrow> int option) \<Rightarrow> int \<Rightarrow> bool \<Rightarrow> ymd \<Rightarrow> store \<Rightarrow> weekly_report outcome option" where
  "weekly_recap parse tz flagHTML refDate db =
     (let week = getWeekRange tz refDate
      in case db of
           Missing \<Rightarrow> Some DatabaseMissing
         | Opened rows \<Rightarrow>
             if length rows = 0
             then Some (NoDictations (''No Wispr Flow dictations found for week of '' @ iso (start week) @ ''.''))
             else case daySorted tz week rows of
                    None \<Rightarrow> None
                  | Some ds \<Rightarrow> Some (render flagHTML (report.extend (aggregate parse tz rows) \<lparr>days = ds\<rparr>)))"

record monthly_report = report +
  month_days :: "month_day list"
  active :: nat
  avg_dictations :: int
  avg_words :: int

definition monthly_recap ::
  "(string \<Rightarrow> int option) \<Rightarrow> int \<Rightarrow> bool \<Rightarrow> int \<times> int \<Rightarrow> store \<Rightarrow> monthly_report outcome" where
  "monthly_recap parse tz flagHTML targetMonth db =
     (let monthRange = getMonthRange tz targetMonth
      in case db of
           Missing \<Rightarrow> DatabaseMissing
         | Opened rows \<Rightarrow>
             if length rows = 0
             then NoDictations (''No Wispr Flow dictations found for '' @ label monthRange @ ''.'')
             else render flagHTML
                    (report.extend (aggregate parse tz rows)
                       \<lparr>month_days = allDays tz monthRange rows,
                        active = activeDays tz monthRange rows,
                        avg_dictations = avgDictationsPerDay tz monthRange rows,
                        avg_words = avgWordsPerDay tz monthRange rows\<rparr>))"


section \<open>Vocabulary of the statements about groupings\<close>

text \<open>
  \<open>first_seen xs\<close> lists the distinct elements of \<open>xs\<close> in the order of their first
  occurrence; \<open>first_before a b xs\<close> says that \<open>b\<close> occurs in \<open>xs\<close> and \<open>a\<close> occurs before
  the first \<open>b\<close>; \<open>occurrences n rows\<close> counts the rows of the application named \<open>n\<close>.
  \<open>key_order\<close> is the order of \<^verbatim>\<open>Object.entries\<close> on a list of keys in creation order.
\<close>

fun first_seen :: "'a list \<Rightarrow> 'a list" where
  "first_seen [] = []"
| "first_seen (x # xs) = x # filter (\<lambda>y. y \<noteq> x) (first_seen xs)"

definition first_before :: "'a \<Rightarrow> 'a \<Rightarrow> 'a list \<Rightarrow> bool" where
  "first_before a b xs = (b \<in> set xs \<and> a \<in> set (takeWhile (\<lambda>z. z \<noteq> b) xs))"

definition occurrences :: "string \<Rightarrow> row list \<Rightarrow> nat" where
  "occurrences n rows = length (filter (\<lambda>r. app_name_of r = n) rows)"

definition key_order :: "('k \<Rightarrow> int option) \<Rightarrow> 'k list \<Rightarrow> 'k list" where
  "key_order idx ks =
     sort_key (\<lambda>k. the (idx k)) (filter (\<lambda>k. idx k \<noteq> None) ks) @ filter (\<lambda>k. idx k = None) ks"

definition count_of :: "(string, app_bucket) js_object \<Rightarrow> string \<Rightarrow> nat" where
  "count_of m n = (case map_of m n of None \<Rightarrow> 0 | Some b \<Rightarrow> count b)"








text \<open>
  The figures as the specification words them, in exact arithmetic: a quotient rounded to
  the nearest integer, halves upwards, and the share \<open>round(cnt / n * 100)\<close>.
\<close>

definition exact_round :: "int \<Rightarrow> int \<Rightarrow> int" where
  "exact_round a b = \<lfloor>of_int a / of_int b + 1 / 2 :: rat\<rfloor>"

definition exact_percentage :: "nat \<Rightarrow> nat \<Rightarrow> int" where
  "exact_percentage cnt n = \<lfloor>100 * of_nat cnt / of_nat n + 1 / 2 :: rat\<rfloor>"

definition total_count :: "('k, 'a bucket_scheme) js_object \<Rightarrow> nat" where
  "total_count m = sum_list (map (\<lambda>e. count (snd e)) m)"

section \<open>Vocabulary of the statements about dates\<close>

text \<open>
  Calendar days are numbered from 1970-01-01, which is day 0 and a Thursday.
  \<open>day_number\<close> is the number of the day with a given date and \<open>date_of_day\<close> the date of
  the day with a given number; \<open>days_of_month\<close> is the length of a month and \<open>monday_of\<close>
  the Monday on or before a day. \<open>utc_shift tz minutes\<close> is the number of days by which the
  UTC date differs from the local date at the local time of day \<open>minutes\<close>, in a zone \<open>tz\<close>
  minutes east of UTC.
\<close>

definition days_of_month :: "int \<Rightarrow> int \<Rightarrow> int" where
  "days_of_month y m =
     (if m = 2 then DaysInYear y - 337 else if m = 4 \<or> m = 6 \<or> m = 9 \<or> m = 11 then 30 else 31)"

definition valid_date :: "ymd \<Rightarrow> bool" where
  "valid_date s = (1 \<le> fst (snd s) \<and> fst (snd s) \<le> 12 \<and> 1 \<le> snd (snd s)
                   \<and> snd (snd s) \<le> days_of_month (fst s) (fst (snd s)))"

definition day_number :: "ymd \<Rightarrow> int" where
  "day_number s = MakeDay (fst s) (fst (snd s) - 1) (snd (snd s))"

definition date_of_day :: "int \<Rightarrow> ymd" where
  "date_of_day n = utc_date (n * msPerDay)"

definition monday_of :: "int \<Rightarrow> int" where
  "monday_of n = n - (n + 3) mod 7"

definition utc_shift :: "int \<Rightarrow> int \<Rightarrow> int" where
  "utc_shift tz minutes = (minutes - tz) div 1440"


section \<open>Example inputs\<close>

definition tie_rows :: "row list" where
  "tie_rows =
     [\<lparr>timestamp = ''2026-02-05 09:15:00.000 +00:00'', app = Some ''com.example.Foo'', numWords = Some 12\<rparr>,
      \<lparr>timestamp = ''2026-02-05 10:40:00.000 +00:00'', app = Some ''com.example.7'', numWords = Some 30\<rparr>]"

definition sample_rows :: "row list" where
  "sample_rows =
     [\<lparr>timestamp = ''2026-02-05 09:15:00.000 +00:00'', app = Some ''com.example.my-notes'', numWords = Some 12\<rparr>,
      \<lparr>timestamp = ''2026-02-05 10:40:00.000 +00:00'', app = Some ''com.apple.Safari'', numWords = Some 30\<rparr>,
      \<lparr>timestamp = ''2026-02-05 10:55:00.000 +00:00'', app = None, numWords = None\<rparr>,
      \<lparr>timestamp = ''2026-02-05 16:05:00.000 +00:00'', app = Some ''com.apple.Safari'', numWords = Some 8\<rparr>]"


text \<open>
  \<open>sample_parse\<close> is \<^verbatim>\<open>Date.parse\<close> on the timestamps of the examples. The text
  \<^verbatim>\<open>2461076.9\<close> is a Julian day number: a date for SQLite's \<^verbatim>\<open>date()\<close>, so the query
  returns the row, but not for \<^verbatim>\<open>Date.parse\<close>.
\<close>

definition sample_parse :: "string \<Rightarrow> int option" where
  "sample_parse ts =
     map_of [(''2026-02-05 09:15:00.000 +00:00'', 1770282900000),
             (''2026-02-05 10:40:00.000 +00:00'', 1770288000000),
             (''2026-02-05 10:55:00.000 +00:00'', 1770288900000),
             (''2026-02-05 16:05:00.000 +00:00'', 1770307500000)] ts"


text \<open>
  A month of rows as the query of the monthly script returns it on a machine in the time
  zone UTC+01:00, and a week of rows as the weekly script gets it at UTC+13:00.
\<close>

definition berlin_rows :: "row list" where
  "berlin_rows =
     [\<lparr>timestamp = ''2024-01-31 22:10:00.000 +00:00'', app = Some ''com.apple.Notes'', numWords = Some 40\<rparr>,
      \<lparr>timestamp = ''2024-02-10 08:00:00.000 +00:00'', app = Some ''com.apple.Notes'', numWords = Some 25\<rparr>]"

definition auckland_rows :: "row list" where
  "auckland_rows =
     [\<lparr>timestamp = ''2026-01-03 02:30:00.000 +00:00'', app = Some ''com.apple.mail'', numWords = Some 18\<rparr>]"

text \<open>
  Forty rows of one day, 23 of one application and 17 of another; and thirty rows of a
  hundred words each on three days of March 2026.
\<close>

definition forty_rows :: "row list" where
  "forty_rows =
     replicate 23 \<lparr>timestamp = ''2026-02-05 09:15:00.000 +00:00'', app = Some ''com.apple.Notes'', numWords = Some 9\<rparr>
     @ replicate 17 \<lparr>timestamp = ''2026-02-05 10:40:00.000 +00:00'', app = Some ''com.apple.mail'', numWords = Some 4\<rparr>"

definition march_rows :: "row list" where
  "march_rows =
     replicate 10 \<lparr>timestamp = ''2026-03-02 09:00:00.000 +00:00'', app = Some ''com.apple.Notes'', numWords = Some 100\<rparr>
     @ replicate 10 \<lparr>timestamp = ''2026-03-03 09:00:00.000 +00:00'', app = Some ''com.apple.Notes'', numWords = Some 100\<rparr>
     @ replicate 10 \<lparr>timestamp = ''2026-03-17 09:00:00.000 +00:00'', app = Some ''com.apple.mail'', numWords = Some 100\<rparr>"

section \<open>Properties of the object model\<close>


lemma set_first_seen: "set (first_seen xs) = set xs"
  by (induction xs) auto

lemma distinct_first_seen: "distinct (first_seen xs)"
  by (induction xs) (auto simp: set_first_seen)

lemma first_before_filter:
  "P a \<Longrightarrow> P b \<Longrightarrow> first_before a b (filter P xs) = first_before a b xs"
  unfolding first_before_def by (induction xs) auto

lemma first_before_append_skip:
  "a \<notin> set us \<Longrightarrow> b \<notin> set us \<Longrightarrow> first_before a b (us @ vs) = first_before a b vs"
  unfolding first_before_def by (induction us) auto

lemma first_before_first_seen:
  "first_before a b (first_seen xs) = first_before a b xs"
proof (induction xs)
  case Nil
  then show ?case by (simp add: first_before_def)
next
  case (Cons x xs)
  show ?case
  proof (cases "x = b")
    case True
    then show ?thesis by (simp add: first_before_def)
  next
    case False
    show ?thesis
    proof (cases "x = a")
      case True
      with False show ?thesis by (auto simp: first_before_def set_first_seen)
    next
      case xa: False
      have "first_before a b (filter (\<lambda>y. y \<noteq> x) (first_seen xs)) = first_before a b (first_seen xs)"
        using xa False by (intro first_before_filter) auto
      with Cons.IH False xa show ?thesis
        by (auto simp: first_before_def)
    qed
  qed
qed

lemma map_insort_key:
  "map f (insort_key (\<lambda>e. g (f e)) x xs) = insort_key g (f x) (map f xs)"
  by (induction xs) auto

lemma map_sort_key:
  "map f (sort_key (\<lambda>e. g (f e)) xs) = sort_key g (map f xs)"
  by (induction xs) (auto simp: map_insort_key)

lemma keys_entries: "map fst (entries idx obj) = key_order idx (map fst obj)"
  using map_sort_key[of fst "\<lambda>k. the (idx k)" "filter (\<lambda>e. idx (fst e) \<noteq> None) obj"]
  by (simp add: entries_def key_order_def index_keys_def string_keys_def filter_map o_def
           del: not_None_eq)

lemma set_entries: "set (entries idx obj) = set obj"
  by (auto simp: entries_def index_keys_def string_keys_def)

lemma set_key_order: "set (key_order idx ks) = set ks"
  by (auto simp: key_order_def)

lemma distinct_split_filter:
  "distinct (filter P xs) \<Longrightarrow> distinct (filter (\<lambda>x. \<not> P x) xs) \<Longrightarrow> distinct xs"
  by (induction xs) (auto split: if_splits)

lemma distinct_key_order: "distinct (key_order idx ks) = distinct ks"
proof
  assume d: "distinct (key_order idx ks)"
  then have "distinct (filter (\<lambda>k. idx k \<noteq> None) ks)" "distinct (filter (\<lambda>k. \<not> idx k \<noteq> None) ks)"
    by (simp_all add: key_order_def del: not_None_eq)
  then show "distinct ks" by (rule distinct_split_filter)
next
  assume "distinct ks"
  then show "distinct (key_order idx ks)" by (auto simp: key_order_def)
qed

lemma sort_desc_stable:
  "filter (\<lambda>e. f e = c) (sort_desc f xs) = filter (\<lambda>e. f e = c) xs"
proof -
  have "filter (\<lambda>e. - int (f e) = - int c) (sort_key (\<lambda>e. - int (f e)) xs)
        = filter (\<lambda>e. - int (f e) = - int c) xs"
    by (rule sort_key_stable)
  then show ?thesis by (simp add: sort_desc_def)
qed

lemma set_sort_desc: "set (sort_desc f xs) = set xs"
  by (simp add: sort_desc_def)

lemma sorted_sort_desc: "sorted_wrt (\<lambda>x y. f y \<le> f x) (sort_desc f xs)"
proof -
  have "sorted (map (\<lambda>e. - int (f e)) (sort_key (\<lambda>e. - int (f e)) xs))"
    by (rule sorted_sort_key)
  then show ?thesis
    by (simp add: sort_desc_def sorted_map) 
qed


section \<open>The application breakdown\<close>


lemma app_step_plain:
  assumes "\<not> inherited (app_name_of r)"
  shows "\<exists>b. app_step m r = AList.update (app_name_of r) b m \<and> count b = Suc (count_of m (app_name_of r))"
proof (cases "map_of m (app_name_of r)")
  case None
  have "app_step m r = AList.update (app_name_of r)
          \<lparr>count = Suc 0, words = words_of r, bundleId = bundle_of r\<rparr> m"
    using None assms by (simp add: app_step_def Let_def AList.update_conv')
  moreover have "count \<lparr>count = Suc 0, words = words_of r, bundleId = bundle_of r\<rparr>
                 = Suc (count_of m (app_name_of r))"
    using None by (simp add: count_of_def)
  ultimately show ?thesis by blast
next
  case (Some b)
  have "app_step m r = AList.update (app_name_of r)
          (b\<lparr>count := Suc (count b), words := words b + words_of r\<rparr>) m"
    using Some assms by (simp add: app_step_def Let_def)
  moreover have "count (b\<lparr>count := Suc (count b), words := words b + words_of r\<rparr>)
                 = Suc (count_of m (app_name_of r))"
    using Some by (simp add: count_of_def)
  ultimately show ?thesis by blast
qed

lemma keys_app_step:
  assumes "\<not> inherited (app_name_of r)"
  shows "map fst (app_step m r) =
         (if app_name_of r \<in> set (map fst m) then map fst m else map fst m @ [app_name_of r])"
  using app_step_plain[OF assms, of m] by (force simp: AList.update_keys)

lemma count_of_app_step:
  assumes "\<not> inherited (app_name_of r)"
  shows "count_of (app_step m r) k = count_of m k + (if k = app_name_of r then 1 else 0)"
  using app_step_plain[OF assms, of m] by (auto simp: count_of_def AList.update_conv')

lemma count_of_foldl:
  "plain_apps rows \<Longrightarrow> count_of (foldl app_step m rows) k = count_of m k + occurrences k rows"
proof (induction rows arbitrary: m)
  case Nil
  then show ?case by (simp add: occurrences_def)
next
  case (Cons r rows)
  then have p: "\<not> inherited (app_name_of r)" and ps: "plain_apps rows"
    by (simp_all add: plain_apps_def)
  show ?case
    using Cons.IH[OF ps, of "app_step m r"] count_of_app_step[OF p, of m k]
    by (auto simp: occurrences_def)
qed

lemma keys_foldl:
  "plain_apps rows \<Longrightarrow>
   map fst (foldl app_step m rows) =
   map fst m @ filter (\<lambda>k. k \<notin> set (map fst m)) (first_seen (map app_name_of rows))"
proof (induction rows arbitrary: m)
  case Nil
  then show ?case by simp
next
  case (Cons r rows)
  then have p: "\<not> inherited (app_name_of r)" and ps: "plain_apps rows"
    by (simp_all add: plain_apps_def)
  let ?n = "app_name_of r"
  let ?fs = "first_seen (map app_name_of rows)"
  show ?case
  proof (cases "?n \<in> set (map fst m)")
    case True
    have "filter (\<lambda>k. k \<notin> set (map fst m)) (filter (\<lambda>y. y \<noteq> ?n) ?fs)
          = filter (\<lambda>k. k \<notin> set (map fst m)) ?fs"
      unfolding filter_filter using True by (intro filter_cong) auto
    with True show ?thesis
      using Cons.IH[OF ps, of "app_step m r"] keys_app_step[OF p, of m] by simp
  next
    case False
    have "filter (\<lambda>k. k \<notin> set (map fst m @ [?n])) ?fs
          = filter (\<lambda>k. k \<notin> set (map fst m)) (filter (\<lambda>y. y \<noteq> ?n) ?fs)"
      unfolding filter_filter by (intro filter_cong) auto
    with False show ?thesis
      using Cons.IH[OF ps, of "app_step m r"] keys_app_step[OF p, of m] by simp
  qed
qed

lemma keys_appMap:
  "plain_apps rows \<Longrightarrow> map fst (appMap rows) = first_seen (map app_name_of rows)"
  using keys_foldl[of rows "[]"] by (simp add: appMap_def)

lemma count_of_appMap:
  "plain_apps rows \<Longrightarrow> count_of (appMap rows) k = occurrences k rows"
  using count_of_foldl[of rows "[]" k] by (simp add: appMap_def count_of_def)

lemma appMap_entry_count:
  assumes "plain_apps rows" "(n, b) \<in> set (appMap rows)"
  shows "count b = occurrences n rows"
proof -
  have "distinct (map fst (appMap rows))"
    using assms(1) by (simp add: keys_appMap distinct_first_seen)
  with assms(2) have "map_of (appMap rows) n = Some b" by simp
  then show ?thesis using count_of_appMap[OF assms(1), of n] by (simp add: count_of_def)
qed

lemma ranking_ties:
  assumes p: "plain_apps rows" and eq: "occurrences a rows = occurrences b rows"
  shows "first_before a b (map fst (appsSorted rows))
         = first_before a b (key_order array_index (first_seen (map app_name_of rows)))"
proof -
  let ?E = "entries array_index (appMap rows)"
  let ?c = "occurrences b rows"
  let ?Q = "\<lambda>n. occurrences n rows = ?c"
  have cnt: "count (snd e) = occurrences (fst e) rows" if "e \<in> set (appMap rows)" for e
    using appMap_entry_count[OF p, of "fst e" "snd e"] that by simp
  have "filter (\<lambda>e. count (snd e) = ?c) (appsSorted rows) = filter (\<lambda>e. count (snd e) = ?c) ?E"
    unfolding appsSorted_def by (rule sort_desc_stable)
  moreover have "filter (\<lambda>e. count (snd e) = ?c) (appsSorted rows)
                 = filter (\<lambda>e. ?Q (fst e)) (appsSorted rows)"
    by (intro filter_cong) (auto simp: appsSorted_def set_sort_desc set_entries cnt)
  moreover have "filter (\<lambda>e. count (snd e) = ?c) ?E = filter (\<lambda>e. ?Q (fst e)) ?E"
    by (intro filter_cong) (auto simp: set_entries cnt)
  ultimately have "map fst (filter (\<lambda>e. ?Q (fst e)) (appsSorted rows))
                   = map fst (filter (\<lambda>e. ?Q (fst e)) ?E)"
    by simp
  then have "filter ?Q (map fst (appsSorted rows)) = filter ?Q (map fst ?E)"
    by (simp add: filter_map o_def)
  then have "first_before a b (filter ?Q (map fst (appsSorted rows)))
             = first_before a b (filter ?Q (map fst ?E))"
    by simp
  then have "first_before a b (map fst (appsSorted rows)) = first_before a b (map fst ?E)"
    using eq by (simp add: first_before_filter[of ?Q])
  then show ?thesis
    using p by (simp add: keys_entries keys_appMap)
qed

lemma sorted_first_before:
  "sorted (map g xs) \<Longrightarrow> a \<in> set xs \<Longrightarrow> b \<in> set xs \<Longrightarrow> g a < g b
   \<Longrightarrow> a \<in> set (takeWhile (\<lambda>z. z \<noteq> b) xs)"
proof (induction xs)
  case Nil
  then show ?case by simp
next
  case (Cons x xs)
  show ?case
  proof (cases "x = b")
    case True
    with Cons.prems have "a \<in> set xs" by auto
    with Cons.prems(1) True have "g b \<le> g a" by auto
    with Cons.prems(4) show ?thesis by simp
  next
    case False
    show ?thesis
    proof (cases "x = a")
      case True
      with False show ?thesis by simp
    next
      case xa: False
      with False Cons.prems have "a \<in> set (takeWhile (\<lambda>z. z \<noteq> b) xs)"
        by (intro Cons.IH) auto
      with False show ?thesis by simp
    qed
  qed
qed

lemma key_order_strings:
  assumes "idx a = None" "idx b = None"
  shows "first_before a b (key_order idx ks) = first_before a b ks"
proof -
  have "first_before a b (key_order idx ks) = first_before a b (filter (\<lambda>k. idx k = None) ks)"
    unfolding key_order_def using assms by (intro first_before_append_skip) auto
  also have "\<dots> = first_before a b ks"
    using assms by (intro first_before_filter) auto
  finally show ?thesis .
qed

lemma key_order_index_first:
  assumes "idx a \<noteq> None" "idx b = None" "a \<in> set ks" "b \<in> set ks"
  shows "first_before a b (key_order idx ks)"
proof -
  let ?S = "sort_key (\<lambda>k. the (idx k)) (filter (\<lambda>k. idx k \<noteq> None) ks)"
  have "b \<notin> set ?S" using assms(2) by auto
  then have "takeWhile (\<lambda>z. z \<noteq> b) (?S @ filter (\<lambda>k. idx k = None) ks)
             = ?S @ takeWhile (\<lambda>z. z \<noteq> b) (filter (\<lambda>k. idx k = None) ks)"
    by (intro takeWhile_append2) auto
  moreover have "a \<in> set ?S" using assms(1,3) by auto
  ultimately show ?thesis
    using assms(2,4) unfolding first_before_def key_order_def by auto
qed

lemma key_order_index_ascending:
  assumes "idx a = Some i" "idx b = Some j" "i < j" "a \<in> set ks" "b \<in> set ks"
  shows "first_before a b (key_order idx ks)"
proof -
  let ?S = "sort_key (\<lambda>k. the (idx k)) (filter (\<lambda>k. idx k \<noteq> None) ks)"
  have ab: "a \<in> set ?S" "b \<in> set ?S" using assms by auto
  have "sorted (map (\<lambda>k. the (idx k)) ?S)" by (rule sorted_sort_key)
  then have "a \<in> set (takeWhile (\<lambda>z. z \<noteq> b) ?S)"
    using ab assms(1-3) by (intro sorted_first_before[where g = "\<lambda>k. the (idx k)"]) auto
  moreover have "takeWhile (\<lambda>z. z \<noteq> b) (?S @ filter (\<lambda>k. idx k = None) ks)
                 = takeWhile (\<lambda>z. z \<noteq> b) ?S"
    using ab(2) by (intro takeWhile_append1[of b]) auto
  ultimately show ?thesis
    using ab(2) unfolding first_before_def key_order_def by auto
qed



text \<open>
  Claim C1, as amended. For rows whose bundle identifiers and resolved names are not names of
  members of \<^verbatim>\<open>Object.prototype\<close>, the breakdown has exactly one bucket per resolved
  application name, the count of a bucket is the number of rows resolving to its name, and
  the buckets are sorted by descending count. Among applications with equal counts: two names
  that are not array indices keep the order of their first events; a name that is an array
  index ranks before a name that is not; and two array-index names rank in ascending numeric
  order.
\<close>

theorem app_breakdown_ranking:
  assumes p: "plain_apps rows"
  shows "distinct (map fst (appsSorted rows))
       \<and> set (map fst (appsSorted rows)) = set (map app_name_of rows)
       \<and> list_all (\<lambda>e. count (snd e) = occurrences (fst e) rows) (appsSorted rows)
       \<and> sorted_wrt (\<lambda>x y. count (snd y) \<le> count (snd x)) (appsSorted rows)
       \<and> (\<forall>a b. occurrences a rows = occurrences b rows
               \<and> array_index a = None \<and> array_index b = None
               \<and> first_before a b (map app_name_of rows)
             \<longrightarrow> first_before a b (map fst (appsSorted rows)))
       \<and> (\<forall>a b. occurrences a rows = occurrences b rows
               \<and> array_index a \<noteq> None \<and> array_index b = None
               \<and> a \<in> set (map app_name_of rows) \<and> b \<in> set (map app_name_of rows)
             \<longrightarrow> first_before a b (map fst (appsSorted rows)))
       \<and> (\<forall>a b i j. occurrences a rows = occurrences b rows
               \<and> array_index a = Some i \<and> array_index b = Some j \<and> i < j
               \<and> a \<in> set (map app_name_of rows) \<and> b \<in> set (map app_name_of rows)
             \<longrightarrow> first_before a b (map fst (appsSorted rows)))"
proof -
  let ?names = "map app_name_of rows"
  have set_sorted: "set (appsSorted rows) = set (appMap rows)"
    by (simp add: appsSorted_def set_sort_desc set_entries)
  have keys: "map fst (appsSorted rows)
              = map fst (sort_desc (\<lambda>e. count (snd e)) (entries array_index (appMap rows)))"
    by (simp add: appsSorted_def)
  have d_entries: "distinct (map fst (entries array_index (appMap rows)))"
    using p by (simp add: keys_entries keys_appMap distinct_key_order distinct_first_seen)
  have "distinct (entries array_index (appMap rows))"
    using d_entries by (simp add: distinct_map)
  have 1: "distinct (map fst (appsSorted rows))"
  proof -
    have "distinct (map fst (appMap rows))"
      using p by (simp add: keys_appMap distinct_first_seen)
    then have inj: "inj_on fst (set (appMap rows))"
      by (simp add: distinct_map)
    have "distinct (appsSorted rows)"
      using \<open>distinct (entries array_index (appMap rows))\<close>
      by (simp add: appsSorted_def sort_desc_def)
    with inj show ?thesis by (simp add: distinct_map set_sorted)
  qed
  have 2: "set (map fst (appsSorted rows)) = set ?names"
  proof -
    have "set (map fst (appsSorted rows)) = set (map fst (appMap rows))"
      using set_sorted by simp
    then show ?thesis using p by (simp add: keys_appMap set_first_seen)
  qed
  have 3: "list_all (\<lambda>e. count (snd e) = occurrences (fst e) rows) (appsSorted rows)"
    unfolding list_all_iff set_sorted
    using appMap_entry_count[OF p] by auto
  have 4: "sorted_wrt (\<lambda>x y. count (snd y) \<le> count (snd x)) (appsSorted rows)"
    unfolding appsSorted_def by (rule sorted_sort_desc)
  have 5: "first_before a b (map fst (appsSorted rows))"
    if "occurrences a rows = occurrences b rows" "array_index a = None" "array_index b = None"
       "first_before a b ?names" for a b
    using that ranking_ties[OF p that(1)]
    by (simp add: key_order_strings first_before_first_seen)
  have 6: "first_before a b (map fst (appsSorted rows))"
    if "occurrences a rows = occurrences b rows" "array_index a \<noteq> None" "array_index b = None"
       "a \<in> set ?names" "b \<in> set ?names" for a b
    unfolding ranking_ties[OF p that(1)]
    using that(2-5) by (intro key_order_index_first) (simp_all add: set_first_seen)
  have 7: "first_before a b (map fst (appsSorted rows))"
    if "occurrences a rows = occurrences b rows" "array_index a = Some i" "array_index b = Some j"
       "i < j" "a \<in> set ?names" "b \<in> set ?names" for a b i j
    unfolding ranking_ties[OF p that(1)]
    using that(2-6) by (intro key_order_index_ascending[of _ _ i _ j]) (simp_all add: set_first_seen)
  from 1 2 3 4 5 6 7 show ?thesis by blast
qed

text \<open>
  Claim C1 as stated fails: with one event of \<^verbatim>\<open>com.example.Foo\<close> followed by one event of
  \<^verbatim>\<open>com.example.7\<close> both applications have one event and \<open>Foo\<close> is met first, but the
  property \<open>7\<close> is an array index, so \<^verbatim>\<open>Object.entries\<close> lists it first and the stable
  sort keeps it there.
\<close>

theorem app_breakdown_tie_counterexample:
  "plain_apps tie_rows
   \<and> occurrences ''Foo'' tie_rows = occurrences ''7'' tie_rows
   \<and> first_before ''Foo'' ''7'' (map app_name_of tie_rows)
   \<and> \<not> first_before ''Foo'' ''7'' (map fst (appsSorted tie_rows))
   \<and> map fst (appsSorted tie_rows) = [''7'', ''Foo'']"
  by code_simp

theorem app_breakdown_ranking_witness:
  "plain_apps sample_rows
   \<and> map fst (appsSorted sample_rows) = [''Safari'', ''my notes'', ''Unknown'']
   \<and> occurrences ''my notes'' sample_rows = occurrences ''Unknown'' sample_rows
   \<and> array_index ''my notes'' = None \<and> array_index ''Unknown'' = None
   \<and> first_before ''my notes'' ''Unknown'' (map app_name_of sample_rows)
   \<and> first_before ''my notes'' ''Unknown'' (map fst (appsSorted sample_rows))
   \<and> list_all (\<lambda>e. count (snd e) = occurrences (fst e) sample_rows) (appsSorted sample_rows)"
proof -
  have p: "plain_apps sample_rows" by code_simp
  have h: "occurrences ''my notes'' sample_rows = occurrences ''Unknown'' sample_rows
           \<and> array_index ''my notes'' = None \<and> array_index ''Unknown'' = None
           \<and> first_before ''my notes'' ''Unknown'' (map app_name_of sample_rows)"
    by code_simp
  have k: "map fst (appsSorted sample_rows) = [''Safari'', ''my notes'', ''Unknown'']"
    by code_simp
  from app_breakdown_ranking[OF p] h p k show ?thesis by blast
qed


section \<open>The hour histogram\<close>

lemma entries_nonempty: "obj \<noteq> [] \<Longrightarrow> entries idx obj \<noteq> []"
proof -
  assume "obj \<noteq> []"
  then have "set (entries idx obj) \<noteq> {}" by (simp add: set_entries)
  then show ?thesis by auto
qed

lemma sort_desc_nonempty: "xs \<noteq> [] \<Longrightarrow> sort_desc f xs \<noteq> []"
proof -
  assume "xs \<noteq> []"
  then have "length (sort_desc f xs) \<noteq> 0" by (simp add: sort_desc_def)
  then show ?thesis by auto
qed

lemma hourMap_nonempty: "rows \<noteq> [] \<Longrightarrow> hourMap parse tz rows \<noteq> []"
proof (induction rows rule: rev_induct)
  case Nil
  then show ?case by simp
next
  case (snoc r rows)
  show ?case by (simp add: hourMap_def hour_step_def Let_def)
qed

lemma peakHour_exists: "rows \<noteq> [] \<Longrightarrow> peakHour parse tz rows \<noteq> None"
  using sort_desc_nonempty[OF entries_nonempty[OF hourMap_nonempty], of rows snd hour_index parse tz]
  by (auto simp: peakHour_def split: list.splits)















section \<open>Rows with an unparseable timestamp\<close>













section \<open>Runs of the scripts\<close>

text \<open>
  Claim C8. When the database opens and the query returns no row, each of the three scripts
  prints its message \<^verbatim>\<open>No Wispr Flow dictations found for ...\<close>, ends with exit code 0 and
  writes no document.
\<close>

theorem empty_period_outcome:
  "daily_recap parse tz flagHTML targetDate (Opened [])
     = NoDictations (''No Wispr Flow dictations found for '' @ targetDate @ ''.'')
   \<and> exit_code (daily_recap parse tz flagHTML targetDate (Opened [])) = 0
   \<and> \<not> document_written (daily_recap parse tz flagHTML targetDate (Opened []))
   \<and> weekly_recap parse tz flagHTML refDate (Opened [])
     = Some (NoDictations (''No Wispr Flow dictations found for week of ''
               @ iso (start (getWeekRange tz refDate)) @ ''.''))
   \<and> exit_code (the (weekly_recap parse tz flagHTML refDate (Opened []))) = 0
   \<and> \<not> document_written (the (weekly_recap parse tz flagHTML refDate (Opened [])))
   \<and> monthly_recap parse tz flagHTML targetMonth (Opened [])
     = NoDictations (''No Wispr Flow dictations found for ''
               @ label (getMonthRange tz targetMonth) @ ''.'')
   \<and> exit_code (monthly_recap parse tz flagHTML targetMonth (Opened [])) = 0
   \<and> \<not> document_written (monthly_recap parse tz flagHTML targetMonth (Opened []))"
  by (simp add: daily_recap_def weekly_recap_def monthly_recap_def exit_code_def
        document_written_def Let_def)

theorem empty_period_outcome_witness:
  "daily_recap sample_parse 0 True ''2026-02-05'' (Opened [])
     = NoDictations ''No Wispr Flow dictations found for 2026-02-05.''
   \<and> weekly_recap sample_parse 0 True (2026, 2, 5) (Opened [])
     = Some (NoDictations ''No Wispr Flow dictations found for week of 2026-02-02.'')
   \<and> monthly_recap sample_parse 0 True (2026, 2) (Opened [])
     = NoDictations ''No Wispr Flow dictations found for February 2026.''
   \<and> exit_code (monthly_recap sample_parse 0 True (2026, 2) (Opened [])) = 0
   \<and> \<not> document_written (monthly_recap sample_parse 0 True (2026, 2) (Opened []))"
proof -
  have w: "iso (start (getWeekRange 0 (2026, 2, 5))) = ''2026-02-02''" by code_simp
  have m: "label (getMonthRange 0 (2026, 2)) = ''February 2026''" by code_simp
  from empty_period_outcome[of sample_parse 0 True "''2026-02-05''" "(2026, 2, 5)" "(2026, 2)"] w m
  show ?thesis by (simp add: exit_code_def document_written_def)
qed

lemma report_of_render: "report_of (render flagHTML d) = Some d"
  by (simp add: render_def report_of_def)

lemma report_aggregate:
  assumes "rows \<noteq> []"
  shows "dictations (aggregate parse tz rows) = length rows
       \<and> 0 < dictations (aggregate parse tz rows)
       \<and> peak (aggregate parse tz rows) \<noteq> None"
  using assms peakHour_exists[OF assms, of parse tz]
  by (simp add: aggregate_def totalDictations_def)

lemma daily_report_rows:
  assumes "report_of (daily_recap parse tz flagHTML targetDate db) = Some d"
  shows "(\<exists>rows. db = Opened rows \<and> rows \<noteq> [] \<and> dictations d = length rows)
       \<and> 0 < dictations d \<and> peak d \<noteq> None"
proof (cases db)
  case Missing
  with assms show ?thesis by (simp add: daily_recap_def report_of_def)
next
  case (Opened rows)
  show ?thesis
  proof (cases "rows = []")
    case True
    with assms Opened show ?thesis by (simp add: daily_recap_def report_of_def)
  next
    case False
    with assms Opened have "d = aggregate parse tz rows"
      by (simp add: daily_recap_def report_of_render)
    with report_aggregate[OF False, of parse tz] Opened False show ?thesis by simp
  qed
qed

lemma weekly_report_rows:
  assumes "weekly_recap parse tz flagHTML refDate db = Some out" "report_of out = Some w"
  shows "(\<exists>rows. db = Opened rows \<and> rows \<noteq> [] \<and> dictations w = length rows)
       \<and> 0 < dictations w \<and> peak w \<noteq> None"
proof (cases db)
  case Missing
  with assms show ?thesis by (auto simp: weekly_recap_def report_of_def)
next
  case (Opened rows)
  show ?thesis
  proof (cases "rows = []")
    case True
    with assms Opened show ?thesis by (auto simp: weekly_recap_def report_of_def)
  next
    case False
    with assms Opened obtain ds where
      "w = report.extend (aggregate parse tz rows) \<lparr>days = ds\<rparr>"
      by (auto simp: weekly_recap_def Let_def report_of_render split: option.splits)
    then have "dictations w = dictations (aggregate parse tz rows)"
              "peak w = peak (aggregate parse tz rows)"
      by (simp_all add: report.defs)
    with report_aggregate[OF False, of parse tz] Opened False show ?thesis by simp
  qed
qed

lemma monthly_report_rows:
  assumes "report_of (monthly_recap parse tz flagHTML targetMonth db) = Some m"
  shows "(\<exists>rows. db = Opened rows \<and> rows \<noteq> [] \<and> dictations m = length rows)
       \<and> 0 < dictations m \<and> peak m \<noteq> None"
proof (cases db)
  case Missing
  with assms show ?thesis by (simp add: monthly_recap_def report_of_def)
next
  case (Opened rows)
  show ?thesis
  proof (cases "rows = []")
    case True
    with assms Opened show ?thesis by (simp add: monthly_recap_def report_of_def)
  next
    case False
    with assms Opened obtain ext where
      "m = report.extend (aggregate parse tz rows) ext"
      by (auto simp: monthly_recap_def Let_def report_of_render)
    then have "dictations m = dictations (aggregate parse tz rows)"
              "peak m = peak (aggregate parse tz rows)"
      by (simp_all add: report.defs)
    with report_aggregate[OF False, of parse tz] Opened False show ?thesis by simp
  qed
qed

text \<open>
  Claim C10. Whenever a script produces a report, as text or as a document, the query has
  returned at least one row: the total of dictations, which is the denominator of every
  application percentage, is the number of rows and is positive, and the peak-hour entry
  exists.
\<close>

theorem report_needs_rows:
  "(report_of (daily_recap parse tz flagHTML targetDate db) = Some d
      \<longrightarrow> (\<exists>rows. db = Opened rows \<and> rows \<noteq> [] \<and> dictations d = length rows)
          \<and> 0 < dictations d \<and> peak d \<noteq> None)
 \<and> (weekly_recap parse tz flagHTML refDate db = Some out \<and> report_of out = Some w
      \<longrightarrow> (\<exists>rows. db = Opened rows \<and> rows \<noteq> [] \<and> dictations w = length rows)
          \<and> 0 < dictations w \<and> peak w \<noteq> None)
 \<and> (report_of (monthly_recap parse tz flagHTML targetMonth db) = Some m
      \<longrightarrow> (\<exists>rows. db = Opened rows \<and> rows \<noteq> [] \<and> dictations m = length rows)
          \<and> 0 < dictations m \<and> peak m \<noteq> None)"
  using daily_report_rows[of parse tz flagHTML targetDate db d]
        weekly_report_rows[of parse tz flagHTML refDate db out w]
        monthly_report_rows[of parse tz flagHTML targetMonth db m]
  by blast

theorem report_needs_rows_witness:
  "report_of (daily_recap sample_parse 0 False ''2026-02-05'' (Opened sample_rows))
     = Some (aggregate sample_parse 0 sample_rows)
   \<and> 0 < dictations (aggregate sample_parse 0 sample_rows)
   \<and> peak (aggregate sample_parse 0 sample_rows) \<noteq> None
   \<and> (\<exists>out w. weekly_recap sample_parse 0 False (2026, 2, 5) (Opened sample_rows) = Some out
          \<and> report_of out = Some w \<and> 0 < dictations w \<and> peak w \<noteq> None)
   \<and> (\<exists>m. report_of (monthly_recap sample_parse 0 False (2026, 2) (Opened sample_rows)) = Some m
          \<and> 0 < dictations m \<and> peak m \<noteq> None)"
proof -
  have ne: "length sample_rows \<noteq> 0" by (simp add: sample_rows_def)
  have d: "report_of (daily_recap sample_parse 0 False ''2026-02-05'' (Opened sample_rows))
           = Some (aggregate sample_parse 0 sample_rows)"
    using ne by (simp add: daily_recap_def report_of_render)
  have "daySorted 0 (getWeekRange 0 (2026, 2, 5)) sample_rows \<noteq> None" by code_simp
  then obtain ds where ds: "daySorted 0 (getWeekRange 0 (2026, 2, 5)) sample_rows = Some ds"
    by auto
  let ?w = "report.extend (aggregate sample_parse 0 sample_rows) \<lparr>days = ds\<rparr>"
  have w: "weekly_recap sample_parse 0 False (2026, 2, 5) (Opened sample_rows)
           = Some (render False ?w)"
    using ne ds by (simp add: weekly_recap_def Let_def)
  have wr: "report_of (render False ?w) = Some ?w" by (rule report_of_render)
  obtain m where m: "report_of (monthly_recap sample_parse 0 False (2026, 2) (Opened sample_rows)) = Some m"
    using ne by (simp add: monthly_recap_def Let_def report_of_render)
  from report_needs_rows[of sample_parse 0 False "''2026-02-05''" "Opened sample_rows"
         "aggregate sample_parse 0 sample_rows" "(2026, 2, 5)" "render False ?w" ?w "(2026, 2)" m]
       d w wr m
  show ?thesis by blast
qed


section \<open>The calendar\<close>

text \<open>
  Setting the day of the month moves a time value by whole days, so the loop of the weekly
  script ends after as many turns as there are days from its first to its last date.
\<close>

lemma MonthFromTime_range: "0 \<le> MonthFromTime t \<and> MonthFromTime t \<le> 11"
  by (simp add: MonthFromTime_def Let_def)

lemma leap_flag: "(if DaysInYear (YearFromTime t) = 366 then 1 else 0) = InLeapYear t"
  by (simp add: InLeapYear_def)

lemma MakeDay_of_fields:
  "MakeDay (YearFromTime t) (MonthFromTime t) (DateFromTime t + k) = Day t + k"
proof -
  have m: "MonthFromTime t div 12 = 0" "MonthFromTime t mod 12 = MonthFromTime t"
    using MonthFromTime_range[of t] by simp_all
  show ?thesis
    unfolding MakeDay_def Let_def m
    by (simp add: leap_flag DateFromTime_def DayWithinYear_def)
qed

lemma Day_MakeDate:
  assumes "0 \<le> time" "time < msPerDay"
  shows "Day (MakeDate day time) = day" "TimeWithinDay (MakeDate day time) = time"
  using assms by (simp_all add: Day_def TimeWithinDay_def MakeDate_def msPerDay_def)

lemma MakeDate_split: "MakeDate (Day t) (TimeWithinDay t) = t"
  by (simp add: MakeDate_def Day_def TimeWithinDay_def)

lemma setDate_shift: "setDate tz t (getDate tz t + k) = t + k * msPerDay"
proof -
  let ?lt = "LocalTime tz t"
  have "MakeDate (MakeDay (YearFromTime ?lt) (MonthFromTime ?lt) (DateFromTime ?lt + k)) (TimeWithinDay ?lt)
        = MakeDate (Day ?lt + k) (TimeWithinDay ?lt)"
    by (simp only: MakeDay_of_fields)
  also have "\<dots> = ?lt + k * msPerDay"
    using MakeDate_split[of ?lt] by (simp add: MakeDate_def algebra_simps)
  finally show ?thesis
    by (simp add: setDate_def getDate_def Let_def UTC_def LocalTime_def)
qed

lemma fill_days_span:
  "fill_days tz m cur (cur + int n * msPerDay) acc
   = Some (acc @ map (\<lambda>i. week_entry tz m (cur + int i * msPerDay)) [0..<Suc n])"
proof (induction n arbitrary: cur acc)
  case 0
  have "\<not> cur + msPerDay \<le> cur" by (simp add: msPerDay_def)
  then show ?case
    by (simp add: fill_days.simps[of tz m cur cur] fill_days.simps[of tz m "cur + msPerDay" cur]
                  setDate_shift[of tz cur 1, simplified])
next
  case (Suc n)
  have le: "cur \<le> cur + int (Suc n) * msPerDay" by (simp add: msPerDay_def)
  have nxt: "setDate tz cur (getDate tz cur + 1) = cur + msPerDay"
    using setDate_shift[of tz cur 1] by simp
  have e: "cur + int (Suc n) * msPerDay = (cur + msPerDay) + int n * msPerDay"
    by (simp add: algebra_simps)
  have "fill_days tz m cur (cur + int (Suc n) * msPerDay) acc
        = fill_days tz m (cur + msPerDay) ((cur + msPerDay) + int n * msPerDay)
            (acc @ [week_entry tz m cur])"
    using le by (subst fill_days.simps) (simp only: nxt e if_True)
  also have "\<dots> = Some ((acc @ [week_entry tz m cur])
                    @ map (\<lambda>i. week_entry tz m ((cur + msPerDay) + int i * msPerDay)) [0..<Suc n])"
    by (rule Suc.IH)
  also have "map (\<lambda>i. week_entry tz m ((cur + msPerDay) + int i * msPerDay)) [0..<Suc n]
             = map (\<lambda>i. week_entry tz m (cur + int i * msPerDay)) [Suc 0..<Suc (Suc n)]"
  proof -
    have "[Suc 0..<Suc (Suc n)] = map Suc [0..<Suc n]" by (rule map_Suc_upt[symmetric])
    then show ?thesis by (simp only: map_map o_def) (simp add: algebra_simps)
  qed
  finally show ?case
    by (simp add: upt_conv_Cons del: upt_Suc)
qed

lemma Day_shift: "Day (t + k * msPerDay) = Day t + k"
  by (simp add: Day_def msPerDay_def)

lemma local_noon_iso_date:
  "local_noon tz (iso_date t) = Day t * msPerDay + 43200000 - tz * 60000"
  using MakeDay_of_fields[of t 0]
  by (simp add: local_noon_def iso_date_def utc_date_def UTC_def MakeDate_def)

lemma getWeekRange_times:
  "\<exists>monday. start (getWeekRange tz refDate) = iso_date monday
     \<and> finish (getWeekRange tz refDate) = iso_date (monday + 6 * msPerDay)"
proof -
  define d where "d = local_noon tz refDate"
  define monday where
    "monday = setDate tz d (getDate tz d + (if getDay tz d = 0 then - 6 else 1 - getDay tz d))"
  have "start (getWeekRange tz refDate) = iso_date monday"
    by (simp add: getWeekRange_def Let_def monday_def d_def)
  moreover have "finish (getWeekRange tz refDate) = iso_date (setDate tz monday (getDate tz monday + 6))"
    by (simp add: getWeekRange_def Let_def monday_def d_def)
  then have "finish (getWeekRange tz refDate) = iso_date (monday + 6 * msPerDay)"
    by (simp only: setDate_shift)
  ultimately show ?thesis by blast
qed

lemma week_span:
  "local_noon tz (finish (getWeekRange tz refDate))
   = local_noon tz (start (getWeekRange tz refDate)) + 6 * msPerDay"
proof -
  obtain monday where m: "start (getWeekRange tz refDate) = iso_date monday"
    "finish (getWeekRange tz refDate) = iso_date (monday + 6 * msPerDay)"
    using getWeekRange_times by blast
  show ?thesis
    unfolding m local_noon_iso_date Day_shift by (simp add: algebra_simps)
qed

lemma daySorted_week:
  "daySorted tz (getWeekRange tz refDate) rows
   = Some (map (\<lambda>i. week_entry tz (dayMap rows)
                      (local_noon tz (start (getWeekRange tz refDate)) + int i * msPerDay))
             [0..<7])"
proof -
  have "(7::nat) = Suc 6" by simp
  show ?thesis
    unfolding daySorted_def week_span
    using fill_days_span[of tz "dayMap rows" "local_noon tz (start (getWeekRange tz refDate))" 6 "[]"]
    by (simp only: \<open>7 = Suc 6\<close> append_Nil) simp
qed

lemma daySorted_week_length:
  "\<exists>ds. daySorted tz (getWeekRange tz refDate) rows = Some ds \<and> length ds = 7"
  by (simp add: daySorted_week)

lemma day_data_step:
  assumes "\<not> inherited k"
  shows "count (day_data (day_step m r) k)
         = count (day_data m k) + (if take 10 (timestamp r) = k then 1 else 0)"
    and "words (day_data (day_step m r) k)
         = words (day_data m k) + (if take 10 (timestamp r) = k then words_of r else 0)"
  using assms
  by (auto simp: day_data_def day_step_def Let_def update_conv' split: option.splits)

lemma day_data_foldl:
  assumes "\<not> inherited k"
  shows "count (day_data (foldl day_step m rows) k)
         = count (day_data m k) + length (filter (\<lambda>r. take 10 (timestamp r) = k) rows)"
    and "words (day_data (foldl day_step m rows) k)
         = words (day_data m k) + sum_list (map words_of (filter (\<lambda>r. take 10 (timestamp r) = k) rows))"
  by (induction rows arbitrary: m) (simp_all add: day_data_step[OF assms])

lemma day_data_dayMap:
  assumes "\<not> inherited k"
  shows "count (day_data (dayMap rows) k) = length (filter (\<lambda>r. take 10 (timestamp r) = k) rows)"
    and "words (day_data (dayMap rows) k)
         = sum_list (map words_of (filter (\<lambda>r. take 10 (timestamp r) = k) rows))"
  using day_data_foldl[OF assms, of "[]" rows] by (simp_all add: dayMap_def day_data_def)

text \<open>
  \<open>YearFromDay\<close> is the year of the specification of \<^verbatim>\<open>YearFromTime\<close>: the one year whose
  first day is not after the given day and whose successor's first day is. With this, reading
  the date of the day of a valid date gives the date back.
\<close>

lemma div_succ:
  fixes x k :: int
  assumes "0 < k"
  shows "(x + 1) div k = x div k + (if (x + 1) mod k = 0 then 1 else 0)"
proof -
  have x: "x = k * (x div k) + x mod k" by simp
  have r: "0 \<le> x mod k" "x mod k < k" using assms by simp_all
  show ?thesis
  proof (cases "(x + 1) mod k = 0")
    case True
    then obtain q where q: "x + 1 = k * q" by (metis mod_eq_0_iff_dvd dvd_def)
    have "k * q = k * (x div k) + (x mod k + 1)" using x q by linarith
    then have e: "k * (q - x div k) = x mod k + 1" by (simp add: algebra_simps)
    then have "k dvd x mod k + 1" by (metis dvd_triv_left)
    with r have "x mod k + 1 = k"
      by (smt (verit) zdvd_imp_le dvd_imp_le_int)
    with e assms have "q - x div k = 1" by simp
    with q True assms show ?thesis by simp
  next
    case False
    have "x mod k + 1 < k"
    proof (rule ccontr)
      assume "\<not> x mod k + 1 < k"
      with r have "x mod k + 1 = k" by linarith
      then have "x + 1 = k * (x div k) + k" using x by linarith
      then have "x + 1 = k * (x div k + 1)" by (simp add: algebra_simps)
      then have "(x + 1) mod k = 0" by (metis mod_mult_self1_is_0)
      with False show False by simp
    qed
    then have "(x + 1) div k = x div k"
      using r by (intro int_div_pos_eq[of "x + 1" k "x div k" "x mod k + 1"]) (simp_all add: algebra_simps)
    with False show ?thesis by simp
  qed
qed

lemma DayFromYear_Suc: "DayFromYear (y + 1) = DayFromYear y + DaysInYear y"
proof -
  define p where "p = (y - 1969) div 4"
  define q where "q = (y - 1901) div 100"
  define r where "r = (y - 1601) div 400"
  have m4: "(y - 1969 + 1) mod 4 = y mod 4"
  proof -
    have "(y - 1969 + 1) mod 4 = (y + 4 * (- 492)) mod 4" by simp
    also have "\<dots> = y mod 4" by (rule mod_mult_self2)
    finally show ?thesis .
  qed
  have m100: "(y - 1901 + 1) mod 100 = y mod 100"
  proof -
    have "(y - 1901 + 1) mod 100 = (y + 100 * (- 19)) mod 100" by simp
    also have "\<dots> = y mod 100" by (rule mod_mult_self2)
    finally show ?thesis .
  qed
  have m400: "(y - 1601 + 1) mod 400 = y mod 400"
  proof -
    have "(y - 1601 + 1) mod 400 = (y + 400 * (- 4)) mod 400" by simp
    also have "\<dots> = y mod 400" by (rule mod_mult_self2)
    finally show ?thesis .
  qed
  have a: "(y - 1969 + 1) div 4 = p + (if y mod 4 = 0 then 1 else 0)"
    using div_succ[of 4 "y - 1969"] unfolding m4 p_def by simp
  have b: "(y - 1901 + 1) div 100 = q + (if y mod 100 = 0 then 1 else 0)"
    using div_succ[of 100 "y - 1901"] unfolding m100 q_def by simp
  have c: "(y - 1601 + 1) div 400 = r + (if y mod 400 = 0 then 1 else 0)"
    using div_succ[of 400 "y - 1601"] unfolding m400 r_def by simp
  have "(y mod 100) mod 4 = y mod 4" by (rule mod_mod_cancel) simp
  then have d1: "y mod 100 = 0 \<Longrightarrow> y mod 4 = 0" by simp
  have "(y mod 400) mod 100 = y mod 100" by (rule mod_mod_cancel) simp
  then have d2: "y mod 400 = 0 \<Longrightarrow> y mod 100 = 0" by simp
  have e: "y + 1 - 1969 = y - 1969 + 1" "y + 1 - 1901 = y - 1901 + 1" "y + 1 - 1601 = y - 1601 + 1"
    "365 * (y + 1 - 1970) = 365 * (y - 1970) + 365"
    by simp_all
  have L: "DayFromYear (y + 1) = 365 * (y - 1970) + 365 + (p + (if y mod 4 = 0 then 1 else 0))
             - (q + (if y mod 100 = 0 then 1 else 0)) + (r + (if y mod 400 = 0 then 1 else 0))"
    unfolding DayFromYear_def e a b c ..
  have R: "DayFromYear y = 365 * (y - 1970) + p - q + r"
    unfolding DayFromYear_def p_def q_def r_def ..
  show ?thesis
  proof (cases "y mod 4 = 0")
    case False
    with d1 d2 have "y mod 100 \<noteq> 0" "y mod 400 \<noteq> 0" by auto
    with False show ?thesis unfolding L R DaysInYear_def by simp
  next
    case True
    show ?thesis
    proof (cases "y mod 100 = 0")
      case False
      with d2 have "y mod 400 \<noteq> 0" by auto
      with True False show ?thesis unfolding L R DaysInYear_def by simp
    next
      case h: True
      show ?thesis
        using True h unfolding L R DaysInYear_def by simp
    qed
  qed
qed

lemma DayFromYear_bounds:
  "146097 * y - 287811596 \<le> 400 * DayFromYear y"
  "400 * DayFromYear y \<le> 146097 * y - 287810501"
proof -
  define a where "a = (y - 1969) div 4"
  define b where "b = (y - 1901) div 100"
  define c where "c = (y - 1601) div 400"
  have a: "4 * a \<le> y - 1969" "y - 1969 < 4 * a + 4"
    unfolding a_def by linarith+
  have b: "100 * b \<le> y - 1901" "y - 1901 < 100 * b + 100"
    unfolding b_def by linarith+
  have c: "400 * c \<le> y - 1601" "y - 1601 < 400 * c + 400"
    unfolding c_def by linarith+
  have "DayFromYear y = 365 * (y - 1970) + a - b + c"
    unfolding DayFromYear_def a_def b_def c_def ..
  then have d: "400 * DayFromYear y = 146000 * y - 287620000 + 400 * a - 400 * b + 400 * c"
    by simp
  show "146097 * y - 287811596 \<le> 400 * DayFromYear y"
    unfolding d using a b c by linarith
  show "400 * DayFromYear y \<le> 146097 * y - 287810501"
    unfolding d using a b c by linarith
qed

lemma DayFromYear_strict_mono:
  assumes "y < z"
  shows "DayFromYear y < DayFromYear z"
proof -
  have "y + 1 \<le> z" using assms by simp
  then have "400 * DayFromYear y < 400 * DayFromYear z"
    using DayFromYear_bounds(2)[of y] DayFromYear_bounds(1)[of z] by linarith
  then show ?thesis by simp
qed

lemma YearFromDay_bounds:
  "DayFromYear (YearFromDay d) \<le> d" "d < DayFromYear (YearFromDay d + 1)"
proof -
  define n where "n = (400 * d) div 146097"
  have n: "146097 * n \<le> 400 * d" "400 * d < 146097 * n + 146097"
    unfolding n_def by linarith+
  define y where "y = 1970 + n"
  have Y: "YearFromDay d = (if DayFromYear (y + 1) \<le> d then y + 1
                            else if DayFromYear y \<le> d then y else y - 1)"
    by (simp add: YearFromDay_def n_def y_def Let_def)
  have e: "146097 * (y + 2) = 146097 * n + 288103284" "146097 * (y - 1) = 146097 * n + 287664993"
    unfolding y_def by simp_all
  have "400 * d < 400 * DayFromYear (y + 2)"
    using DayFromYear_bounds(1)[of "y + 2"] n unfolding e by linarith
  then have hi: "d < DayFromYear (y + 1 + 1)" by (simp add: algebra_simps)
  have "400 * DayFromYear (y - 1) \<le> 400 * d"
    using DayFromYear_bounds(2)[of "y - 1"] n unfolding e by linarith
  then have lo: "DayFromYear (y - 1) \<le> d" by simp
  show "DayFromYear (YearFromDay d) \<le> d"
    unfolding Y using lo by simp
  show "d < DayFromYear (YearFromDay d + 1)"
    unfolding Y using hi by auto
qed

lemma YearFromDay_unique:
  assumes "DayFromYear y \<le> d" "d < DayFromYear (y + 1)"
  shows "YearFromDay d = y"
proof -
  let ?Y = "YearFromDay d"
  have b: "DayFromYear ?Y \<le> d" "d < DayFromYear (?Y + 1)"
    by (rule YearFromDay_bounds)+
  have "\<not> ?Y < y"
  proof
    assume "?Y < y"
    then have "?Y + 1 = y \<or> ?Y + 1 < y" by linarith
    then have "DayFromYear (?Y + 1) \<le> DayFromYear y"
      using DayFromYear_strict_mono[of "?Y + 1" y] by auto
    with b(2) assms(1) show False by linarith
  qed
  moreover have "\<not> y < ?Y"
  proof
    assume "y < ?Y"
    then have "y + 1 = ?Y \<or> y + 1 < ?Y" by linarith
    then have "DayFromYear (y + 1) \<le> DayFromYear ?Y"
      using DayFromYear_strict_mono[of "y + 1" ?Y] by auto
    with b(1) assms(2) show False by linarith
  qed
  ultimately show ?thesis by linarith
qed

lemma DayWithinYear_range:
  "0 \<le> DayWithinYear t" "DayWithinYear t < DaysInYear (YearFromTime t)"
  using YearFromDay_bounds[of "Day t"] DayFromYear_Suc[of "YearFromTime t"]
  by (simp_all add: DayWithinYear_def YearFromTime_def)

lemma utc_date_Day: "utc_date t = date_of_day (Day t)"
proof -
  have "Day (Day t * msPerDay) = Day t" by (simp add: Day_def msPerDay_def)
  then show ?thesis
    by (simp add: date_of_day_def utc_date_def YearFromTime_def MonthFromTime_def DateFromTime_def
                  DayWithinYear_def InLeapYear_def)
qed

lemma day_number_of_date: "day_number (date_of_day n) = n"
proof -
  have "Day (n * msPerDay) = n" by (simp add: Day_def msPerDay_def)
  then show ?thesis
    using MakeDay_of_fields[of "n * msPerDay" 0]
    by (simp add: day_number_def date_of_day_def utc_date_def)
qed

lemma date_of_day_inject: "date_of_day a = date_of_day b \<longleftrightarrow> a = b"
  by (metis day_number_of_date)

lemma month_cases:
  fixes m :: int
  assumes "1 \<le> m" "m \<le> 12"
  shows "m = 1 \<or> m = 2 \<or> m = 3 \<or> m = 4 \<or> m = 5 \<or> m = 6 \<or> m = 7 \<or> m = 8
         \<or> m = 9 \<or> m = 10 \<or> m = 11 \<or> m = 12"
  using assms by presburger

lemma month_start_range:
  assumes "1 \<le> m" "m \<le> 12" "1 \<le> d" "d \<le> days_of_month y m"
  shows "0 \<le> month_start (m - 1) (if DaysInYear y = 366 then 1 else 0) + d - 1"
    and "month_start (m - 1) (if DaysInYear y = 366 then 1 else 0) + d - 1 < DaysInYear y"
proof -
  have "0 \<le> month_start (m - 1) (if DaysInYear y = 366 then 1 else 0) + d - 1
        \<and> month_start (m - 1) (if DaysInYear y = 366 then 1 else 0) + d - 1 < DaysInYear y"
    using month_cases[OF assms(1,2)] assms(3,4)
    by (elim disjE) (simp_all add: month_start_def days_of_month_def DaysInYear_def split: if_splits)
  then show "0 \<le> month_start (m - 1) (if DaysInYear y = 366 then 1 else 0) + d - 1"
    and "month_start (m - 1) (if DaysInYear y = 366 then 1 else 0) + d - 1 < DaysInYear y"
    by simp_all
qed

lemma date_of_day_number:
  assumes "valid_date s"
  shows "date_of_day (day_number s) = s"
proof -
  obtain y m d where s: "s = (y, m, d)" by (metis prod.collapse)
  have v: "1 \<le> m" "m \<le> 12" "1 \<le> d" "d \<le> days_of_month y m"
    using assms by (simp_all add: valid_date_def s)
  define leap :: int where "leap = (if DaysInYear y = 366 then 1 else 0)"
  define w where "w = month_start (m - 1) leap + d - 1"
  define t where "t = day_number s * msPerDay"
  have mm: "(m - 1) div 12 = 0" "(m - 1) mod 12 = m - 1" using v(1,2) by simp_all
  have n: "day_number s = DayFromYear y + w"
    by (simp add: day_number_def s MakeDay_def Let_def mm w_def leap_def)
  have w: "0 \<le> w" "w < DaysInYear y"
    using month_start_range[OF v] by (simp_all add: w_def leap_def)
  have D: "Day t = DayFromYear y + w" by (simp add: t_def Day_def msPerDay_def n)
  have Y: "YearFromTime t = y"
    unfolding YearFromTime_def D using w by (intro YearFromDay_unique) (simp_all add: DayFromYear_Suc)
  have L: "InLeapYear t = leap" by (simp add: InLeapYear_def Y leap_def)
  have W: "DayWithinYear t = w" by (simp add: DayWithinYear_def Y D)
  have leap: "leap = 0 \<or> leap = 1" by (simp add: leap_def)
  have dm: "days_of_month y m = (if m = 2 then 28 + leap
              else if m = 4 \<or> m = 6 \<or> m = 9 \<or> m = 11 then 30 else 31)"
    by (simp add: days_of_month_def leap_def DaysInYear_def)
  have M: "MonthFromTime t = m - 1 \<and> DateFromTime t = d"
    unfolding MonthFromTime_def DateFromTime_def Let_def W L
    using month_cases[OF v(1,2)] v(3,4) leap unfolding dm w_def
    by (elim disjE) (simp_all add: month_start_def)
  show ?thesis
    using Y M unfolding t_def by (simp add: date_of_day_def utc_date_def s)
qed


section \<open>Period ranges in every time zone\<close>

text \<open>
  The week range starts on the Monday on or before the reference date, moved by the number of
  days between the local and the UTC date at local noon: by nothing for offsets from
  -11:59 to +12:00, by one day back for larger offsets. The month range is moved by the
  number of days between the local and the UTC date at local midnight: by nothing for the
  offsets from -23:59 to 0, by one day back for every positive offset.
\<close>

lemma Day_offset: "Day (n * msPerDay + 60000 * x) = n + x div 1440"
proof -
  have "(60000 * x) div (60000 * 1440) = x div 1440" by (rule div_mult_mult1) simp
  then have "(60000 * x) div msPerDay = x div 1440" by (simp add: msPerDay_def)
  moreover have "(n * msPerDay + 60000 * x) div msPerDay = n + (60000 * x) div msPerDay"
    by (simp add: msPerDay_def)
  ultimately show ?thesis by (simp add: Day_def)
qed

lemma local_noon_value:
  "local_noon tz s = day_number s * msPerDay + 60000 * (720 - tz)"
  by (simp add: local_noon_def day_number_def UTC_def MakeDate_def)

lemma Day_local_noon: "Day (local_noon tz s) = day_number s + utc_shift tz 720"
  unfolding local_noon_value Day_offset utc_shift_def ..

lemma getDay_local_noon: "getDay tz (local_noon tz s) = (day_number s + 4) mod 7"
proof -
  have "LocalTime tz (local_noon tz s) = day_number s * msPerDay + 60000 * 720"
    by (simp add: LocalTime_def local_noon_value)
  then have "Day (LocalTime tz (local_noon tz s)) = day_number s"
    using Day_offset[of "day_number s" 720] by simp
  then show ?thesis by (simp add: getDay_def WeekDay_def)
qed

lemma diffToMon:
  fixes n :: int
  shows "(if (n + 4) mod 7 = 0 then - 6 else 1 - (n + 4) mod 7) = - ((n + 3) mod 7)"
proof -
  define r where "r = (n + 3) mod 7"
  have r: "0 \<le> r" "r < 7" by (simp_all add: r_def)
  have "(r + 1) mod 7 = (n + 3 + 1) mod 7" unfolding r_def by (rule mod_add_left_eq)
  then have e: "(n + 4) mod 7 = (r + 1) mod 7" by (simp add: add.commute)
  show ?thesis
  proof (cases "r = 6")
    case True
    then show ?thesis unfolding e r_def[symmetric] by simp
  next
    case False
    with r have "(r + 1) mod 7 = r + 1" by simp
    with r show ?thesis unfolding e r_def[symmetric] by simp
  qed
qed

lemma getWeekRange_days:
  "getWeekRange tz refDate
   = \<lparr>start = date_of_day (monday_of (day_number refDate) + utc_shift tz 720),
      finish = date_of_day (monday_of (day_number refDate) + 6 + utc_shift tz 720)\<rparr>"
proof -
  define d where "d = local_noon tz refDate"
  define n where "n = day_number refDate"
  define monday where "monday = d - ((n + 3) mod 7) * msPerDay"
  have g: "getDay tz d = (n + 4) mod 7" unfolding d_def n_def by (rule getDay_local_noon)
  have m: "d + (if getDay tz d = 0 then - 6 else 1 - getDay tz d) * msPerDay = monday"
    unfolding g diffToMon monday_def by simp
  have w: "getWeekRange tz refDate
           = \<lparr>start = iso_date monday, finish = iso_date (monday + 6 * msPerDay)\<rparr>"
    unfolding getWeekRange_def Let_def d_def[symmetric] setDate_shift m ..
  have "Day monday = Day d + - ((n + 3) mod 7)"
    unfolding monday_def using Day_shift[of d "- ((n + 3) mod 7)"] by simp
  then have D: "Day monday = monday_of n + utc_shift tz 720"
    unfolding d_def Day_local_noon n_def monday_of_def by simp
  show ?thesis
    unfolding w iso_date_def utc_date_Day Day_shift D n_def by (simp add: ac_simps)
qed

lemma monday_of_range: "monday_of n \<le> n" "n \<le> monday_of n + 6" "(monday_of n + 4) mod 7 = 1"
  unfolding monday_of_def by presburger+

lemma utc_shift_noon:
  "- 720 < tz \<Longrightarrow> tz \<le> 720 \<Longrightarrow> utc_shift tz 720 = 0"
  "720 < tz \<Longrightarrow> tz \<le> 2160 \<Longrightarrow> utc_shift tz 720 = - 1"
  "- 2160 < tz \<Longrightarrow> tz \<le> - 720 \<Longrightarrow> utc_shift tz 720 = 1"
  unfolding utc_shift_def by linarith+

lemma utc_shift_midnight:
  "- 1440 < tz \<Longrightarrow> tz \<le> 0 \<Longrightarrow> utc_shift tz 0 = 0"
  "0 < tz \<Longrightarrow> tz \<le> 1440 \<Longrightarrow> utc_shift tz 0 = - 1"
  unfolding utc_shift_def by linarith+

lemma new_Date_value:
  "100 \<le> y \<Longrightarrow> new_Date tz y mi d = MakeDay y mi d * msPerDay + 60000 * (0 - tz)"
  by (simp add: new_Date_def UTC_def MakeDate_def)

lemma DaysInYear_cases: "DaysInYear y = 365 \<or> DaysInYear y = 366"
  by (simp add: DaysInYear_def)

lemma MakeDay_last:
  assumes "1 \<le> m" "m \<le> 12"
  shows "MakeDay y m 0 = day_number (y, m, days_of_month y m)"
proof (cases "m = 12")
  case True
  have "MakeDay y 12 0 = DayFromYear (y + 1) - 1"
    by (simp add: MakeDay_def month_start_def)
  also have "\<dots> = DayFromYear y + DaysInYear y - 1" by (simp add: DayFromYear_Suc)
  also have "\<dots> = day_number (y, 12, days_of_month y 12)"
    using DaysInYear_cases[of y]
    by (auto simp: day_number_def MakeDay_def month_start_def days_of_month_def)
  finally show ?thesis using True by simp
next
  case False
  with assms have m: "1 \<le> m" "m \<le> 11" by simp_all
  then have dm: "m div 12 = 0" "m mod 12 = m" "(m - 1) div 12 = 0" "(m - 1) mod 12 = m - 1"
    by simp_all
  have c: "m = 1 \<or> m = 2 \<or> m = 3 \<or> m = 4 \<or> m = 5 \<or> m = 6 \<or> m = 7 \<or> m = 8
           \<or> m = 9 \<or> m = 10 \<or> m = 11"
    using month_cases[OF assms] False by simp
  have "month_start m (if DaysInYear y = 366 then 1 else 0)
        = month_start (m - 1) (if DaysInYear y = 366 then 1 else 0) + days_of_month y m"
    using c DaysInYear_cases[of y]
    by (elim disjE) (simp_all add: month_start_def days_of_month_def)
  then show ?thesis
    by (simp add: day_number_def MakeDay_def Let_def dm)
qed

lemma days_of_month_range: "28 \<le> days_of_month y m" "days_of_month y m \<le> 31"
  using DaysInYear_cases[of y] by (auto simp: days_of_month_def)

lemma valid_first: "1 \<le> m \<Longrightarrow> m \<le> 12 \<Longrightarrow> valid_date (y, m, 1)"
  using days_of_month_range(1)[of y m] by (simp add: valid_date_def)

lemma valid_last: "1 \<le> m \<Longrightarrow> m \<le> 12 \<Longrightarrow> valid_date (y, m, days_of_month y m)"
  using days_of_month_range(1)[of y m] by (simp add: valid_date_def)

lemma fields_of_day:
  "YearFromTime (n * msPerDay) = fst (date_of_day n)"
  "MonthFromTime (n * msPerDay) = fst (snd (date_of_day n)) - 1"
  "DateFromTime (n * msPerDay) = snd (snd (date_of_day n))"
  by (simp_all add: date_of_day_def utc_date_def)

lemma getMonthRange_days:
  assumes "100 \<le> y" "1 \<le> m" "m \<le> 12"
  shows "getMonthRange tz (y, m)
         = \<lparr>start = date_of_day (day_number (y, m, 1) + utc_shift tz 0),
            finish = date_of_day (day_number (y, m, days_of_month y m) + utc_shift tz 0),
            year = y, month = m,
            label = monthNames ! nat (m - 1) @ '' '' @ num_str y,
            daysInMonth = days_of_month y m\<rparr>"
proof -
  define n1 where "n1 = day_number (y, m, 1)"
  define nl where "nl = day_number (y, m, days_of_month y m)"
  have f: "new_Date tz y (m - 1) 1 = n1 * msPerDay + 60000 * (0 - tz)"
    using assms(1) by (simp add: new_Date_value n1_def day_number_def)
  have l: "new_Date tz y m 0 = nl * msPerDay + 60000 * (0 - tz)"
    using assms(1) by (simp add: new_Date_value MakeDay_last[OF assms(2,3)] nl_def)
  have lf: "LocalTime tz (new_Date tz y (m - 1) 1) = n1 * msPerDay"
    and ll: "LocalTime tz (new_Date tz y m 0) = nl * msPerDay"
    by (simp_all add: LocalTime_def f l)
  have d1: "date_of_day n1 = (y, m, 1)"
    unfolding n1_def using valid_first[OF assms(2,3)] by (rule date_of_day_number)
  have dl: "date_of_day nl = (y, m, days_of_month y m)"
    unfolding nl_def using valid_last[OF assms(2,3)] by (rule date_of_day_number)
  have s: "iso_date (new_Date tz y (m - 1) 1) = date_of_day (n1 + utc_shift tz 0)"
    unfolding iso_date_def utc_date_Day f Day_offset utc_shift_def ..
  have e: "iso_date (new_Date tz y m 0) = date_of_day (nl + utc_shift tz 0)"
    unfolding iso_date_def utc_date_Day l Day_offset utc_shift_def ..
  have g: "getDate tz (new_Date tz y m 0) = days_of_month y m"
    unfolding getDate_def ll fields_of_day dl by simp
  have lab: "MonthFromTime (LocalTime tz (new_Date tz y (m - 1) 1)) = m - 1"
    "YearFromTime (LocalTime tz (new_Date tz y (m - 1) 1)) = y"
    unfolding lf fields_of_day d1 by simp_all
  show ?thesis
    unfolding getMonthRange_def Let_def fst_conv snd_conv s e g lab n1_def nl_def ..
qed

lemma length_iso: "length (iso s) = 10"
  by (simp add: iso_def pad4_def pad2_def)

lemma iso_not_inherited: "\<not> inherited (iso s)"
proof
  assume "inherited (iso s)"
  then have "length (iso s) \<noteq> 10" unfolding inherited_def by auto
  then show False by (simp add: length_iso)
qed

lemma week_entry_fields:
  "date (week_entry tz (dayMap rows) cur) = iso (date_of_day (Day cur))"
  "count (week_entry tz (dayMap rows) cur)
   = length (filter (\<lambda>r. take 10 (timestamp r) = iso (date_of_day (Day cur))) rows)"
  "words (week_entry tz (dayMap rows) cur)
   = sum_list (map words_of (filter (\<lambda>r. take 10 (timestamp r) = iso (date_of_day (Day cur))) rows))"
  using day_data_dayMap[OF iso_not_inherited, of rows "date_of_day (Day cur)"]
  by (simp_all add: week_entry_def Let_def iso_date_def utc_date_Day)

lemma week_days:
  "Day (local_noon tz (start (getWeekRange tz refDate)) + int i * msPerDay)
   = monday_of (day_number refDate) + 2 * utc_shift tz 720 + int i"
  unfolding Day_shift Day_local_noon getWeekRange_days
  by (simp add: day_number_of_date)

text \<open>
  The daily breakdowns. The weekly loop returns seven entries for seven consecutive days, the
  monthly loop one entry for each day of the month; each entry counts the rows whose timestamp
  begins with the date of the entry, so a day without rows has the count 0. The seven days of
  the week start twice \<open>utc_shift tz 720\<close> days from the Monday: the start of the range is
  read at local noon and printed in UTC a second time.
\<close>

lemma weekly_breakdown:
  "\<exists>ds. daySorted tz (getWeekRange tz refDate) rows = Some ds \<and> length ds = 7
     \<and> map date ds
         = map (\<lambda>i. iso (date_of_day (monday_of (day_number refDate) + 2 * utc_shift tz 720 + int i)))
             [0..<7]
     \<and> (\<forall>e \<in> set ds. count e = length (filter (\<lambda>r. take 10 (timestamp r) = date e) rows)
           \<and> words e = sum_list (map words_of (filter (\<lambda>r. take 10 (timestamp r) = date e) rows)))"
proof -
  define s where "s = local_noon tz (start (getWeekRange tz refDate))"
  define ds where "ds = map (\<lambda>i. week_entry tz (dayMap rows) (s + int i * msPerDay)) [0..<7]"
  have "daySorted tz (getWeekRange tz refDate) rows = Some ds"
    unfolding ds_def s_def by (rule daySorted_week)
  moreover have "length ds = 7" by (simp add: ds_def)
  moreover have "map date ds
      = map (\<lambda>i. iso (date_of_day (monday_of (day_number refDate) + 2 * utc_shift tz 720 + int i)))
          [0..<7]"
    unfolding ds_def map_map o_def week_entry_fields s_def week_days ..
  moreover have "\<forall>e \<in> set ds. count e = length (filter (\<lambda>r. take 10 (timestamp r) = date e) rows)
           \<and> words e = sum_list (map words_of (filter (\<lambda>r. take 10 (timestamp r) = date e) rows))"
    unfolding ds_def by (auto simp: week_entry_fields)
  ultimately show ?thesis by blast
qed

lemma week_range_within_half_day:
  assumes "- 720 < tz" "tz \<le> 720"
  shows "getWeekRange tz refDate
         = \<lparr>start = date_of_day (monday_of (day_number refDate)),
            finish = date_of_day (monday_of (day_number refDate) + 6)\<rparr>"
  unfolding getWeekRange_days utc_shift_noon(1)[OF assms] by simp

lemma week_range_far_east:
  assumes "720 < tz" "tz \<le> 2160"
  shows "getWeekRange tz refDate
         = \<lparr>start = date_of_day (monday_of (day_number refDate) - 1),
            finish = date_of_day (monday_of (day_number refDate) + 5)\<rparr>"
  unfolding getWeekRange_days utc_shift_noon(2)[OF assms] by (simp add: ac_simps)

lemma week_contains_reference:
  assumes "valid_date refDate"
  shows "\<exists>k. 0 \<le> k \<and> k \<le> 6 \<and> date_of_day (monday_of (day_number refDate) + k) = refDate"
proof -
  define k where "k = day_number refDate - monday_of (day_number refDate)"
  have "0 \<le> k" "k \<le> 6" using monday_of_range(1,2)[of "day_number refDate"] by (simp_all add: k_def)
  moreover have "date_of_day (monday_of (day_number refDate) + k) = refDate"
    using date_of_day_number[OF assms] by (simp add: k_def)
  ultimately show ?thesis by blast
qed

lemma day_number_shift: "day_number (y, m, d + k) = day_number (y, m, d) + k"
  by (simp add: day_number_def MakeDay_def Let_def)

lemma west_month_range:
  assumes "100 \<le> y" "1 \<le> m" "m \<le> 12" "- 1440 < tz" "tz \<le> 0"
  shows "start (getMonthRange tz (y, m)) = (y, m, 1)"
    and "finish (getMonthRange tz (y, m)) = (y, m, days_of_month y m)"
  unfolding getMonthRange_days[OF assms(1,2,3)] utc_shift_midnight(1)[OF assms(4,5)]
  using date_of_day_number[OF valid_first[OF assms(2,3)]]
        date_of_day_number[OF valid_last[OF assms(2,3)]]
  by simp_all

lemma east_month_range:
  assumes "100 \<le> y" "1 \<le> m" "m \<le> 12" "0 < tz" "tz \<le> 1440"
  shows "start (getMonthRange tz (y, m)) = date_of_day (day_number (y, m, 1) - 1)"
    and "start (getMonthRange tz (y, m)) \<noteq> (y, m, 1)"
    and "finish (getMonthRange tz (y, m)) = (y, m, days_of_month y m - 1)"
    and "daysInMonth (getMonthRange tz (y, m)) = days_of_month y m"
proof -
  show s: "start (getMonthRange tz (y, m)) = date_of_day (day_number (y, m, 1) - 1)"
    unfolding getMonthRange_days[OF assms(1,2,3)] utc_shift_midnight(2)[OF assms(4,5)] by simp
  have "date_of_day (day_number (y, m, 1)) = (y, m, 1)"
    by (rule date_of_day_number[OF valid_first[OF assms(2,3)]])
  then show "start (getMonthRange tz (y, m)) \<noteq> (y, m, 1)"
    unfolding s by (metis date_of_day_inject add_diff_cancel_left' diff_add_cancel zero_neq_one
                          diff_eq_diff_eq cancel_comm_monoid_add_class.diff_cancel)
  have v: "valid_date (y, m, days_of_month y m - 1)"
    using days_of_month_range(1)[of y m] assms(2,3) by (simp add: valid_date_def)
  have "day_number (y, m, days_of_month y m) - 1 = day_number (y, m, days_of_month y m - 1)"
    using day_number_shift[of y m "days_of_month y m" "- 1"] by simp
  then show "finish (getMonthRange tz (y, m)) = (y, m, days_of_month y m - 1)"
    unfolding getMonthRange_days[OF assms(1,2,3)] utc_shift_midnight(2)[OF assms(4,5)]
    using date_of_day_number[OF v] by simp
  show "daysInMonth (getMonthRange tz (y, m)) = days_of_month y m"
    unfolding getMonthRange_days[OF assms(1,2,3)] by simp
qed

lemma month_key_not_inherited: "\<not> inherited (month_key mr d)"
proof
  assume "inherited (month_key mr d)"
  then have "CHR ''-'' \<notin> set (month_key mr d)" unfolding inherited_def by auto
  then show False by (simp add: month_key_def)
qed

lemma month_entry_fields:
  "date (month_entry tz mr (dayMap rows) d) = month_key mr d"
  "dayNum (month_entry tz mr (dayMap rows) d) = d"
  "count (month_entry tz mr (dayMap rows) d)
   = length (filter (\<lambda>r. take 10 (timestamp r) = month_key mr d) rows)"
  "words (month_entry tz mr (dayMap rows) d)
   = sum_list (map words_of (filter (\<lambda>r. take 10 (timestamp r) = month_key mr d) rows))"
  using day_data_dayMap[OF month_key_not_inherited, of rows mr d]
  by (simp_all add: month_entry_def Let_def)

lemma monthly_breakdown:
  assumes "100 \<le> y" "1 \<le> m" "m \<le> 12"
  shows "map dayNum (allDays tz (getMonthRange tz (y, m)) rows) = [1..days_of_month y m]"
    and "int (length (allDays tz (getMonthRange tz (y, m)) rows)) = days_of_month y m"
    and "\<forall>e \<in> set (allDays tz (getMonthRange tz (y, m)) rows).
           date e = month_key (getMonthRange tz (y, m)) (dayNum e)
           \<and> count e = length (filter (\<lambda>r. take 10 (timestamp r) = date e) rows)
           \<and> words e = sum_list (map words_of (filter (\<lambda>r. take 10 (timestamp r) = date e) rows))"
proof -
  have d: "daysInMonth (getMonthRange tz (y, m)) = days_of_month y m"
    unfolding getMonthRange_days[OF assms] by simp
  show "map dayNum (allDays tz (getMonthRange tz (y, m)) rows) = [1..days_of_month y m]"
    unfolding allDays_def d map_map o_def month_entry_fields by simp
  show "int (length (allDays tz (getMonthRange tz (y, m)) rows)) = days_of_month y m"
    unfolding allDays_def d using days_of_month_range(1)[of y m] by simp
  show "\<forall>e \<in> set (allDays tz (getMonthRange tz (y, m)) rows).
           date e = month_key (getMonthRange tz (y, m)) (dayNum e)
           \<and> count e = length (filter (\<lambda>r. take 10 (timestamp r) = date e) rows)
           \<and> words e = sum_list (map words_of (filter (\<lambda>r. take 10 (timestamp r) = date e) rows))"
    unfolding allDays_def by (auto simp: month_entry_fields)
qed

lemma month_key_iso:
  assumes "1000 \<le> year mr" "year mr \<le> 9999"
  shows "month_key mr d = iso (year mr, month mr, d)"
  using assms by (simp add: month_key_def iso_def num_str_def)


section \<open>Period ranges and time zones\<close>

text \<open>
  Claim C3, at an input where the code departs from it. \<open>getWeekRange\<close> takes local noon of
  the reference date, moves to Monday in local time and prints the result with
  \<^verbatim>\<open>toISOString\<close>, that is in UTC. At UTC+13:00 (New Zealand in January) local noon is
  23:00 of the previous day in UTC, so the week of Thursday 2026-01-01 comes out as Sunday
  2025-12-28 to Saturday 2026-01-03. At UTC the same input gives Monday 2025-12-29 to Sunday
  2026-01-04, as the claim says.
\<close>

theorem week_range_beyond_utc_plus_12:
  "getWeekRange 780 (2026, 1, 1) = \<lparr>start = (2025, 12, 28), finish = (2026, 1, 3)\<rparr>
   \<and> iso (start (getWeekRange 780 (2026, 1, 1))) = ''2025-12-28''
   \<and> iso (finish (getWeekRange 780 (2026, 1, 1))) = ''2026-01-03''
   \<and> getWeekRange 0 (2026, 1, 1) = \<lparr>start = (2025, 12, 29), finish = (2026, 1, 4)\<rparr>"
  by code_simp

text \<open>
  Claim C4, at an input where the code departs from it. \<open>getMonthRange\<close> builds the first
  and the last day at local midnight and prints them in UTC. East of Greenwich local
  midnight belongs to the previous day in UTC: at UTC+01:00 the month 2024-02 comes out as
  2024-01-31 to 2024-02-28, while \<open>daysInMonth\<close>, read in local time, is 29.
\<close>

theorem month_range_east_of_utc:
  "start (getMonthRange 60 (2024, 2)) = (2024, 1, 31)
   \<and> finish (getMonthRange 60 (2024, 2)) = (2024, 2, 28)
   \<and> daysInMonth (getMonthRange 60 (2024, 2)) = 29
   \<and> start (getMonthRange 0 (2024, 2)) = (2024, 2, 1)
   \<and> finish (getMonthRange 0 (2024, 2)) = (2024, 2, 29)"
  by code_simp

text \<open>
  Claim C2, at inputs where the code departs from it. At UTC+01:00 the days of the monthly
  breakdown are the 29 days of February 2024, but the period of the query is 2024-01-31 to
  2024-02-28. At UTC+13:00 the seven days of the weekly breakdown start one day before the
  period of the query, because the start date is read at local noon and printed in UTC once
  more: the row of 2026-01-03, the last day of that period, is in no day of the breakdown.
\<close>

theorem gap_filling_off_period:
  "iso (start (getMonthRange 60 (2024, 2))) = ''2024-01-31''
   \<and> iso (finish (getMonthRange 60 (2024, 2))) = ''2024-02-28''
   \<and> map date (allDays 60 (getMonthRange 60 (2024, 2)) berlin_rows)
       = [''2024-02-01'', ''2024-02-02'', ''2024-02-03'', ''2024-02-04'', ''2024-02-05'',
          ''2024-02-06'', ''2024-02-07'', ''2024-02-08'', ''2024-02-09'', ''2024-02-10'',
          ''2024-02-11'', ''2024-02-12'', ''2024-02-13'', ''2024-02-14'', ''2024-02-15'',
          ''2024-02-16'', ''2024-02-17'', ''2024-02-18'', ''2024-02-19'', ''2024-02-20'',
          ''2024-02-21'', ''2024-02-22'', ''2024-02-23'', ''2024-02-24'', ''2024-02-25'',
          ''2024-02-26'', ''2024-02-27'', ''2024-02-28'', ''2024-02-29'']
   \<and> iso (start (getWeekRange 780 (2026, 1, 1))) = ''2025-12-28''
   \<and> iso (finish (getWeekRange 780 (2026, 1, 1))) = ''2026-01-03''
   \<and> map_option (map date) (daySorted 780 (getWeekRange 780 (2026, 1, 1)) auckland_rows)
       = Some [''2025-12-27'', ''2025-12-28'', ''2025-12-29'', ''2025-12-30'', ''2025-12-31'',
               ''2026-01-01'', ''2026-01-02'']
   \<and> map_option (map count) (daySorted 780 (getWeekRange 780 (2026, 1, 1)) auckland_rows)
       = Some [0, 0, 0, 0, 0, 0, 0]"
  by code_simp


section \<open>Rounding of quotients\<close>

lemma round_ties_even_error: "\<bar>of_int (round_ties_even x) - x\<bar> \<le> 1 / 2"
proof -
  have "of_int \<lfloor>x\<rfloor> \<le> x" "x < of_int \<lfloor>x\<rfloor> + 1" by linarith+
  then show ?thesis
    by (auto simp: round_ties_even_def Let_def abs_le_iff)
qed

lemma round_ties_even_of_int: "round_ties_even (of_int n) = n"
  by (simp add: round_ties_even_def Let_def)

lemma exponent_of_lower:
  assumes "0 < x"
  shows "2 powi (exponent_of x) \<le> x"
proof -
  obtain a b where q: "quotient_of x = (a, b)" by (cases "quotient_of x")
  then have b: "0 < b" and x: "x = of_int a / of_int b"
    by (simp_all add: quotient_of_denom_pos quotient_of_div)
  from assms b x have a: "0 < a" by (simp add: zero_less_divide_iff)
  let ?e = "bitlen a - bitlen b"
  show ?thesis
  proof (cases "2 powi ?e \<le> x")
    case True
    then show ?thesis using q by (simp add: exponent_of_def Let_def)
  next
    case False
    have la: "(2::int) ^ nat (bitlen a - 1) \<le> a" using bitlen_bounds[OF a] by simp
    have lb: "b < (2::int) ^ nat (bitlen b)" using bitlen_bounds[OF b] by simp
    have a1: "1 \<le> bitlen a" using a by (auto simp: bitlen_alt_def)
    have b0: "0 \<le> bitlen b" by (rule bitlen_nonneg)
    have ra: "(2::rat) ^ nat (bitlen a - 1) \<le> of_int a"
      using la by (metis of_int_le_iff of_int_numeral of_int_power)
    have rb: "of_int b \<le> (2::rat) ^ nat (bitlen b)"
      using lb by (metis less_imp_le of_int_le_iff of_int_numeral of_int_power)
    have "?e - 1 = (bitlen a - 1) - bitlen b" by simp
    then have "(2::rat) powi (?e - 1) = 2 powi ((bitlen a - 1) - bitlen b)" by (rule arg_cong)
    also have "\<dots> = 2 powi (bitlen a - 1) / 2 powi (bitlen b)"
      by (rule power_int_diff) simp
    finally have "(2::rat) powi (?e - 1) = 2 powi (bitlen a - 1) / 2 powi (bitlen b)" .
    also have "\<dots> = 2 ^ nat (bitlen a - 1) / 2 ^ nat (bitlen b)"
      using a1 b0 by (simp add: power_int_nonneg_exp)
    also have "\<dots> \<le> of_int a / of_int b"
      using ra rb b a by (intro frac_le) auto
    finally have "(2::rat) powi (?e - 1) \<le> x" using x by simp
    with False show ?thesis using q by (simp add: exponent_of_def Let_def)
  qed
qed

lemma fl_error:
  assumes "0 < x"
  shows "\<bar>fl x - x\<bar> \<le> x / 2 ^ 53"
proof -
  let ?e = "exponent_of x"
  let ?u = "(2::rat) powi (?e - 52)"
  have u: "0 < ?u" by simp
  have fl: "fl x = of_int (round_ties_even (x / ?u)) * ?u"
    using assms by (simp add: fl_def Let_def)
  have "fl x - x = (of_int (round_ties_even (x / ?u)) - x / ?u) * ?u"
    unfolding fl using u by (simp add: field_simps)
  then have "\<bar>fl x - x\<bar> = \<bar>of_int (round_ties_even (x / ?u)) - x / ?u\<bar> * ?u"
    using u by (simp add: abs_mult)
  also have "\<dots> \<le> 1 / 2 * ?u"
    using round_ties_even_error[of "x / ?u"] u by (intro mult_right_mono) auto
  also have "\<dots> = 2 powi ?e / 2 ^ 53"
    using power_int_diff[of "2::rat" ?e 52] by simp
  also have "\<dots> \<le> x / 2 ^ 53"
    using exponent_of_lower[OF assms] by (intro divide_right_mono) auto
  finally show ?thesis .
qed

lemma fl_zero: "fl 0 = 0"
  by (simp add: fl_def)

lemma exponent_of_less:
  assumes "0 < x" "x < 2 ^ n"
  shows "exponent_of x < int n"
proof (rule ccontr)
  assume "\<not> exponent_of x < int n"
  then have "int n \<le> exponent_of x" by simp
  then have "(2::rat) powi (int n) \<le> 2 powi (exponent_of x)"
    by (intro power_int_increasing) auto
  with exponent_of_lower[OF assms(1)] assms(2) show False by simp
qed

lemma fl_half_integer:
  assumes "0 < n" "n < 2 ^ 53"
  shows "fl (of_int n / 2) = of_int n / 2"
proof -
  let ?x = "of_int n / 2 :: rat"
  have x: "0 < ?x" using assms(1) by simp
  have "?x < 2 ^ 52"
  proof -
    have "(of_int n :: rat) < of_int (2 ^ 53)" using assms(2) by (simp only: of_int_less_iff)
    then show ?thesis by simp
  qed
  then have e: "exponent_of ?x < 52" using exponent_of_less[OF x, of 52] by simp
  let ?e = "exponent_of ?x"
  let ?k = "nat (51 - ?e)"
  have ke: "52 - ?e = 1 + int ?k" using e by simp
  have "(2::rat) powi (52 - ?e) = 2 powi (1 + int ?k)" by (simp only: ke)
  also have "\<dots> = 2 powi 1 * 2 powi (int ?k)" by (rule power_int_add) simp
  also have "\<dots> = 2 * 2 ^ ?k" by (simp only: power_int_1_right power_int_of_nat)
  finally have p: "(2::rat) powi (52 - ?e) = 2 * 2 ^ ?k" .
  have inv: "(2::rat) powi (?e - 52) = 1 / 2 powi (52 - ?e)"
    using power_int_minus_divide[of "2::rat" "52 - ?e"] by simp
  have q: "?x / 2 powi (?e - 52) = of_int (n * 2 ^ ?k)"
    unfolding inv p by simp
  have "fl ?x = of_int (round_ties_even (?x / 2 powi (?e - 52))) * 2 powi (?e - 52)"
    using x by (simp add: fl_def Let_def)
  also have "\<dots> = of_int (n * 2 ^ ?k) * 2 powi (?e - 52)"
    unfolding q round_ties_even_of_int ..
  also have "\<dots> = ?x"
    unfolding inv p by simp
  finally show ?thesis .
qed

lemma Math_round_js_div:
  assumes w: "0 \<le> w" "w < 2 ^ 52" and a: "0 < a"
  shows "Math_round (js_div (of_int w) (of_int a)) = (2 * w + a) div (2 * a)"
proof -
  let ?x = "of_int w / of_int a :: rat"
  let ?k = "(2 * w + a) div (2 * a)"
  define N where "N = 2 * w + a - 2 * a * ?k"
  have N: "0 \<le> N" "N < 2 * a"
  proof -
    have "N = (2 * w + a) mod (2 * a)"
      unfolding N_def by (simp add: minus_mult_div_eq_mod)
    then show "0 \<le> N" "N < 2 * a" using a by simp_all
  qed
  have A: "0 < (of_int a :: rat)" using a by simp
  have xk: "?x + 1 / 2 - of_int ?k = of_int N / (2 * of_int a)"
    unfolding N_def using A by (simp add: field_simps)
  have goal: "of_int ?k \<le> fl ?x + 1 / 2 \<and> fl ?x + 1 / 2 < of_int ?k + 1"
  proof (cases "w = 0")
    case True
    then have "?k = 0" using a by simp
    with True show ?thesis by (simp add: fl_zero)
  next
    case False
    with w have wpos: "0 < w" by simp
    then have x: "0 < ?x" using A by simp
    have "?x / 2 ^ 53 < 1 / (2 * of_int a)"
    proof -
      have "(of_int w :: rat) < of_int (2 ^ 52)" using w(2) by (simp only: of_int_less_iff)
      then have "(of_int w :: rat) < 2 ^ 52" by simp
      then have "of_int w * (2 * of_int a) < (2 ^ 53 :: rat) * of_int a"
        using A by simp
      then show ?thesis using A by (simp add: field_simps)
    qed
    with fl_error[OF x] have eps: "\<bar>fl ?x - ?x\<bar> < 1 / (2 * of_int a)" by simp
    show ?thesis
    proof (cases "N = 0")
      case True
      with xk have half: "?x = of_int (2 * ?k - 1) / 2" by (simp add: field_simps)
      have "0 < 2 * ?k - 1"
      proof -
        have "0 < (of_int (2 * ?k - 1) :: rat)" using x half by simp
        then show ?thesis by (simp only: of_int_0_less_iff)
      qed
      moreover have "2 * ?k - 1 < 2 ^ 53"
      proof -
        have "(1::rat) \<le> of_int a" using a by simp
        then have "of_int w \<le> (of_int w :: rat) * of_int a"
          using w(1) by (simp add: mult_le_cancel_left1)
        then have "?x \<le> of_int w" using A by (simp add: pos_divide_le_eq)
        moreover have "(of_int w :: rat) < of_int (2 ^ 52)"
          using w(2) by (simp only: of_int_less_iff)
        ultimately have "?x < 2 ^ 52" by simp
        then have "(of_int (2 * ?k - 1) :: rat) < of_int (2 ^ 53)" unfolding half by simp
        then show ?thesis by (simp only: of_int_less_iff)
      qed
      ultimately have "fl (of_int (2 * ?k - 1) / 2) = of_int (2 * ?k - 1) / 2"
        by (rule fl_half_integer)
      then have "fl ?x = ?x" by (simp only: half[symmetric])
      moreover have "?x + 1 / 2 = of_int ?k" using xk True by simp
      ultimately show ?thesis by simp
    next
      case False
      with N have N1: "1 \<le> N" "N \<le> 2 * a - 1" by simp_all
      have lo: "1 / (2 * of_int a) \<le> (of_int N :: rat) / (2 * of_int a)"
        using N1(1) A by (intro divide_right_mono) auto
      have "(of_int N :: rat) \<le> of_int (2 * a - 1)" using N1(2) by (simp only: of_int_le_iff)
      then have hi: "(of_int N :: rat) / (2 * of_int a) \<le> 1 - 1 / (2 * of_int a)"
        using A by (simp add: field_simps)
      have "fl ?x + 1 / 2 - of_int ?k = of_int N / (2 * of_int a) + (fl ?x - ?x)"
        using xk by simp
      with lo hi eps show ?thesis by (simp add: abs_less_iff)
    qed
  qed
  then have "\<lfloor>fl ?x + 1 / 2\<rfloor> = ?k" by (intro floor_unique) auto
  then show ?thesis by (simp add: Math_round_def js_div_def)
qed

lemma fl_error_abs:
  assumes "0 < x"
  shows "fl x - x \<le> x * (1 / 2 ^ 53)" and "x - fl x \<le> x * (1 / 2 ^ 53)"
  using fl_error[OF assms] by (simp_all only: abs_le_iff times_divide_eq_right mult_1_right) auto

lemma fl_pos:
  assumes "0 < x"
  shows "0 < fl x"
proof -
  define d :: rat where "d = 1 / 2 ^ 53"
  have d: "0 < d" "d < 1" by (simp_all add: d_def)
  have "x - fl x \<le> x * d" unfolding d_def by (rule fl_error_abs[OF assms])
  moreover have "x * d < x * 1" using d(2) assms by (intro mult_strict_left_mono)
  ultimately show ?thesis by linarith
qed

lemma percentage_value:
  assumes c: "0 < c" "c \<le> t"
  shows "\<bar>js_mul (js_div (of_nat c) (of_nat t)) 100 - 100 * of_nat c / of_nat t\<bar> \<le> 300 / 2 ^ 53"
proof -
  define d :: rat where "d = 1 / 2 ^ 53"
  have d: "0 < d" "d \<le> 1" by (simp_all add: d_def)
  define q :: rat where "q = of_nat c / of_nat t"
  have tpos: "0 < (of_nat t :: rat)" using c by simp
  have q: "0 < q" "q \<le> 1" using c tpos by (simp_all add: q_def)
  define q1 where "q1 = fl q"
  have e1: "q1 - q \<le> q * d" "q - q1 \<le> q * d"
    unfolding q1_def d_def by (rule fl_error_abs[OF q(1)])+
  have q1pos: "0 < q1" unfolding q1_def by (rule fl_pos[OF q(1)])
  have qd: "q * d \<le> 1 * d" using q(2) d(1) by (intro mult_right_mono) auto
  have q1le: "q1 \<le> 2" using e1(1) qd d(2) q(2) by linarith
  define p where "p = q1 * 100"
  have ppos: "0 < p" using q1pos by (simp add: p_def)
  have e2: "fl p - p \<le> p * d" "p - fl p \<le> p * d"
    unfolding d_def by (rule fl_error_abs[OF ppos])+
  have "p \<le> 200" using q1le by (simp add: p_def)
  then have pd: "p * d \<le> 200 * d" using d(1) by (intro mult_right_mono) auto
  have pq: "p = 100 * q1" by (simp add: p_def)
  have "fl p - 100 * q \<le> 300 * d" "100 * q - fl p \<le> 300 * d"
    using e1 e2 qd pd pq by linarith+
  then have "\<bar>fl p - 100 * q\<bar> \<le> 300 * d" by (simp add: abs_le_iff)
  then show ?thesis
    by (simp add: js_mul_def js_div_def p_def q1_def q_def d_def)
qed

lemma percentage_nearest:
  assumes c: "0 < c" "c \<le> t" and t: "t < 2 ^ 32"
  shows "\<bar>of_int (percentage c t) - 100 * of_nat c / of_nat t :: rat\<bar> \<le> 1 / 2"
proof -
  define y :: rat where "y = js_mul (js_div (of_nat c) (of_nat t)) 100"
  define x :: rat where "x = 100 * of_nat c / of_nat t"
  define eps :: rat where "eps = 300 / 2 ^ 53"
  define T :: rat where "T = of_nat t"
  let ?m = "percentage c t"
  have tpos: "0 < T" using c by (simp add: T_def)
  have "\<bar>y - x\<bar> \<le> eps"
    using percentage_value[OF c] unfolding y_def x_def eps_def .
  then have yx: "y - x \<le> eps" "x - y \<le> eps" by linarith+
  have m: "of_int ?m \<le> y + 1 / 2" "y + 1 / 2 < of_int ?m + 1"
    unfolding percentage_def Math_round_def y_def by linarith+
  define Z where "Z = 2 * int t * ?m - 200 * int c"
  have Zx: "of_int Z = 2 * T * (of_int ?m - x)"
    unfolding Z_def x_def T_def using c by (simp add: field_simps)
  have tb: "T \<le> 2 ^ 32"
  proof -
    have "(of_nat t :: rat) < of_nat (2 ^ 32)" using t by (simp only: of_nat_less_iff)
    then show ?thesis by (simp add: T_def)
  qed
  have eps: "0 \<le> eps" "2 * 2 ^ 32 * eps < 1" by (simp_all add: eps_def)
  have "2 * T * eps \<le> 2 * 2 ^ 32 * eps" using tb eps(1) by (intro mult_right_mono) auto
  with eps(2) have small: "2 * T * eps < 1" by linarith
  have up: "of_int ?m - x \<le> 1 / 2 + eps" using m(1) yx by linarith
  have lo: "- (1 / 2) - eps < of_int ?m - x" using m(2) yx by linarith
  have "2 * T * (of_int ?m - x) \<le> 2 * T * (1 / 2 + eps)"
    using up tpos by (intro mult_left_mono) auto
  also have "\<dots> = T + 2 * T * eps" by (simp add: algebra_simps)
  finally have "of_int Z < T + 1" using small Zx by linarith
  then have "(of_int Z :: rat) < of_int (int t + 1)" by (simp add: T_def)
  then have "Z < int t + 1" by (simp only: of_int_less_iff)
  then have Zu: "Z \<le> int t" by simp
  have "2 * T * (- (1 / 2) - eps) < 2 * T * (of_int ?m - x)"
    using lo tpos by (intro mult_strict_left_mono) auto
  moreover have "2 * T * (- (1 / 2) - eps) = - T - 2 * T * eps"
    by (simp add: algebra_simps)
  ultimately have "- T - 1 < of_int Z" using small Zx by linarith
  then have "(of_int (- int t - 1) :: rat) < of_int Z" by (simp add: T_def)
  then have "- int t - 1 < Z" by (simp only: of_int_less_iff)
  then have Zl: "- int t \<le> Z" by simp
  have "\<bar>Z\<bar> \<le> int t" using Zu Zl by simp
  then have "(of_int \<bar>Z\<bar> :: rat) \<le> of_int (int t)" by (simp only: of_int_le_iff)
  then have "\<bar>2 * T * (of_int ?m - x)\<bar> \<le> T" using Zx by (simp add: T_def)
  then have "2 * T * \<bar>of_int ?m - x\<bar> \<le> T * 1"
    using tpos by (simp add: abs_mult)
  then have "\<bar>of_int ?m - x\<bar> \<le> 1 / 2" using tpos by simp
  then show ?thesis by (simp add: x_def)
qed

lemma percentage_half_up:
  assumes c: "0 < c" "c \<le> t" and t: "t < 2 ^ 32"
  shows "percentage c t = (200 * int c + int t) div (2 * int t)
       \<or> (percentage c t = (200 * int c + int t) div (2 * int t) - 1
          \<and> (200 * int c + int t) mod (2 * int t) = 0)"
proof -
  let ?m = "percentage c t"
  let ?k = "(200 * int c + int t) div (2 * int t)"
  let ?r = "(200 * int c + int t) mod (2 * int t)"
  have tp: "0 < int t" using c by simp
  have tpos: "0 < (of_nat t :: rat)" using c by simp
  have near: "\<bar>of_int ?m - 100 * of_nat c / of_nat t :: rat\<bar> \<le> 1 / 2"
    by (rule percentage_nearest[OF assms])
  then have "2 * of_nat t * \<bar>of_int ?m - 100 * of_nat c / of_nat t :: rat\<bar> \<le> 2 * of_nat t * (1 / 2)"
    using tpos by (intro mult_left_mono) auto
  then have "\<bar>2 * of_nat t * (of_int ?m - 100 * of_nat c / of_nat t) :: rat\<bar> \<le> of_nat t"
    using tpos by (simp add: abs_mult)
  moreover have "2 * of_nat t * (of_int ?m - 100 * of_nat c / of_nat t)
                 = (of_int (2 * int t * ?m - 200 * int c) :: rat)"
    using tpos by (simp add: field_simps)
  ultimately have "\<bar>of_int (2 * int t * ?m - 200 * int c) :: rat\<bar> \<le> of_int (int t)" by simp
  then have Z: "\<bar>2 * int t * ?m - 200 * int c\<bar> \<le> int t"
    by (simp only: of_int_abs[symmetric] of_int_le_iff)
  have dm: "200 * int c + int t = 2 * int t * ?k + ?r" by simp
  have r: "0 \<le> ?r" "?r < 2 * int t" using tp by simp_all
  define D where "D = ?m - ?k"
  have "2 * int t * ?m = 2 * int t * D + 2 * int t * ?k"
    by (simp add: D_def algebra_simps)
  with dm have "2 * int t * ?m - 200 * int c = 2 * int t * D + int t - ?r" by linarith
  with Z have P: "2 * int t * D \<le> ?r" "?r - 2 * int t \<le> 2 * int t * D" by linarith+
  have "2 * int t * D < 2 * int t * 1" using P(1) r(2) by linarith
  then have D1: "D < 1" using tp by (simp only: mult_less_cancel_left_pos) 
  have "2 * int t * (- 2) < 2 * int t * D" using P(2) r(1) tp by linarith
  then have D2: "- 2 < D" using tp by (simp only: mult_less_cancel_left_pos)
  from D1 D2 consider "D = 0" | "D = - 1" by linarith
  then show ?thesis
  proof cases
    case 1
    then show ?thesis by (simp add: D_def)
  next
    case 2
    with P(2) have "?r \<le> 0" by simp
    with r(1) have "?r = 0" by simp
    moreover have "?m = ?k - 1" using 2 by (simp add: D_def)
    ultimately show ?thesis by simp
  qed
qed

lemma exact_round_div:
  assumes "0 < b"
  shows "exact_round a b = (2 * a + b) div (2 * b)"
proof -
  have "of_int a / of_int b + 1 / 2 = (of_int (2 * a + b) :: rat) / of_int (2 * b)"
    using assms by (simp add: field_simps)
  then show ?thesis
    unfolding exact_round_def by (simp only: floor_divide_of_int_eq)
qed

lemma exact_percentage_div:
  assumes "0 < t"
  shows "exact_percentage c t = (200 * int c + int t) div (2 * int t)"
proof -
  have "100 * of_nat c / of_nat t + 1 / 2 = (of_int (200 * int c + int t) :: rat) / of_int (2 * int t)"
    using assms by (simp add: field_simps)
  then show ?thesis
    unfolding exact_percentage_def by (simp only: floor_divide_of_int_eq)
qed

lemma fl_one: "fl 1 = 1"
  by code_simp

lemma fl_hundred: "fl 100 = 100"
  by code_simp

lemma Math_round_hundred: "Math_round 100 = 100"
  by code_simp

lemma percentage_all:
  assumes "0 < t"
  shows "percentage t t = 100"
proof -
  have "js_div (of_nat t) (of_nat t) = 1" using assms by (simp add: js_div_def fl_one)
  then have "js_mul (js_div (of_nat t) (of_nat t)) 100 = 100"
    by (simp add: js_mul_def fl_hundred)
  then show ?thesis by (simp only: percentage_def Math_round_hundred)
qed

lemma deviation_sum:
  assumes "\<forall>c\<in>set ds. 0 < c \<and> c \<le> t" "t < 2 ^ 32"
  shows "\<bar>sum_list (map (\<lambda>c. of_int (percentage c t) - 100 * of_nat c / of_nat t :: rat) ds)\<bar>
         \<le> of_nat (length ds) / 2"
  using assms(1)
proof (induction ds)
  case Nil
  then show ?case by simp
next
  case (Cons c ds)
  then have c: "0 < c" "c \<le> t" and IH: "\<bar>sum_list (map (\<lambda>c. of_int (percentage c t) - 100 * of_nat c / of_nat t :: rat) ds)\<bar>
         \<le> of_nat (length ds) / 2"
    by simp_all
  let ?f = "\<lambda>c. of_int (percentage c t) - 100 * of_nat c / of_nat t :: rat"
  have "\<bar>sum_list (map ?f (c # ds))\<bar> = \<bar>?f c + sum_list (map ?f ds)\<bar>" by simp
  also have "\<dots> \<le> \<bar>?f c\<bar> + \<bar>sum_list (map ?f ds)\<bar>" by (rule abs_triangle_ineq)
  also have "\<dots> \<le> 1 / 2 + of_nat (length ds) / 2"
    using percentage_nearest[OF c assms(2)] IH by (intro add_mono)
  also have "\<dots> = of_nat (length (c # ds)) / 2" by simp
  finally show ?case .
qed

lemma exact_sum:
  "sum_list (map (\<lambda>c. 100 * of_nat c / T :: rat) ds) = 100 * of_nat (sum_list ds) / T"
  by (induction ds) (simp_all add: add_divide_distrib algebra_simps)

lemma percentage_sum:
  assumes pos: "\<forall>c\<in>set cs. 0 < c" and sum: "sum_list cs = t" and t: "t < 2 ^ 32" and ne: "cs \<noteq> []"
  shows "\<bar>sum_list (map (\<lambda>c. percentage c t) cs) - 100\<bar> \<le> int (length cs) - 1"
proof (cases "length cs = 1")
  case True
  then obtain c where cs: "cs = [c]" by (cases cs) auto
  with sum pos have "c = t" "0 < t" by simp_all
  with cs percentage_all[of t] show ?thesis by simp
next
  case False
  have "length cs \<noteq> 0" using ne by simp
  with False have n2: "2 \<le> length cs" by linarith
  let ?S = "sum_list (map (\<lambda>c. percentage c t) cs)"
  have le: "\<forall>c\<in>set cs. 0 < c \<and> c \<le> t"
    using pos sum member_le_sum_list by auto
  have tpos: "0 < t"
  proof -
    obtain c where "c \<in> set cs" using ne by (cases cs) auto
    with le show ?thesis by force
  qed
  have "sum_list (map (\<lambda>c. of_int (percentage c t) - 100 * of_nat c / of_nat t :: rat) cs)
        = of_int ?S - sum_list (map (\<lambda>c. 100 * of_nat c / of_nat t :: rat) cs)"
    by (induction cs) simp_all
  also have "\<dots> = of_int ?S - 100"
    using tpos sum by (simp add: exact_sum)
  finally have "\<bar>of_int ?S - 100 :: rat\<bar> \<le> of_nat (length cs) / 2"
    using deviation_sum[OF le t] by simp
  moreover have "(of_nat (length cs) :: rat) / 2 \<le> of_nat (length cs) - 1"
  proof -
    have "(2::rat) \<le> of_nat (length cs)" using n2 by (metis of_nat_le_iff of_nat_numeral)
    then show ?thesis by simp
  qed
  ultimately have "\<bar>of_int (?S - 100) :: rat\<bar> \<le> of_int (int (length cs) - 1)" by simp
  then show ?thesis by (simp only: of_int_abs[symmetric] of_int_le_iff)
qed


section \<open>The daily averages of the month\<close>

lemma totalWords_nonneg:
  assumes "list_all (\<lambda>r. 0 \<le> words_of r) rows"
  shows "0 \<le> totalWords rows"
proof -
  have "list_all (\<lambda>r. 0 \<le> words_of r) rows \<Longrightarrow> a \<le> foldl (\<lambda>sum r. sum + words_of r) a rows" for a
  proof (induction rows arbitrary: a)
    case Nil
    then show ?case by simp
  next
    case (Cons r rows)
    then have "a + words_of r \<le> foldl (\<lambda>sum r. sum + words_of r) (a + words_of r) rows"
      by simp
    with Cons.prems show ?case by simp
  qed
  from this[OF assms, of 0] show ?thesis by (simp add: totalWords_def)
qed

lemma Math_round_exact:
  assumes "0 \<le> w" "w < 2 ^ 52" "0 < a"
  shows "Math_round (js_div (of_int w) (of_int a)) = exact_round w a"
  using Math_round_js_div[OF assms] exact_round_div[OF assms(3), of w] by simp

text \<open>
  Claim C6. In the monthly recap the active days are the gap-filled days with a positive
  count; each average is its total divided by the number of active days and rounded to the
  nearest integer, and is 0 when no day is active, where nothing is divided. Word counts are
  not negative and the totals are below \<open>2^52\<close>, the range in which the double-precision
  quotient rounds like the exact one. Three active days with 30 dictations and 3000 words
  give the averages 10 and 1000.
\<close>

theorem daily_averages:
  assumes nonneg: "list_all (\<lambda>r. 0 \<le> words_of r) rows"
      and wb: "totalWords rows < 2 ^ 52" and len: "length rows < 2 ^ 32"
  shows "activeDays tz mr rows = length (filter (\<lambda>d. 0 < count d) (allDays tz mr rows))
       \<and> avgDictationsPerDay tz mr rows
           = (if activeDays tz mr rows = 0 then 0
              else exact_round (int (totalDictations rows)) (int (activeDays tz mr rows)))
       \<and> avgWordsPerDay tz mr rows
           = (if activeDays tz mr rows = 0 then 0
              else exact_round (totalWords rows) (int (activeDays tz mr rows)))
       \<and> (activeDays tz mr rows = 3 \<and> totalDictations rows = 30 \<and> totalWords rows = 3000
            \<longrightarrow> avgDictationsPerDay tz mr rows = 10 \<and> avgWordsPerDay tz mr rows = 1000)"
proof -
  let ?A = "activeDays tz mr rows"
  let ?T = "totalDictations rows"
  have 1: "?A = length (filter (\<lambda>d. 0 < count d) (allDays tz mr rows))"
    by (simp add: activeDays_def)
  have tb: "int ?T < 2 ^ 52"
  proof -
    have "int (length rows) < int (2 ^ 32)" using len by (simp only: of_nat_less_iff)
    then show ?thesis by (simp add: totalDictations_def)
  qed
  have d: "avgDictationsPerDay tz mr rows = exact_round (int ?T) (int ?A)" if "0 < ?A"
  proof -
    have "Math_round (js_div (of_int (int ?T)) (of_int (int ?A))) = exact_round (int ?T) (int ?A)"
      using tb that by (intro Math_round_exact) simp_all
    with that show ?thesis by (simp add: avgDictationsPerDay_def)
  qed
  have w: "avgWordsPerDay tz mr rows = exact_round (totalWords rows) (int ?A)" if "0 < ?A"
  proof -
    have "Math_round (js_div (of_int (totalWords rows)) (of_int (int ?A)))
          = exact_round (totalWords rows) (int ?A)"
      using totalWords_nonneg[OF nonneg] wb that by (intro Math_round_exact) simp_all
    with that show ?thesis by (simp add: avgWordsPerDay_def)
  qed
  have 2: "avgDictationsPerDay tz mr rows = (if ?A = 0 then 0 else exact_round (int ?T) (int ?A))"
    using d by (simp add: avgDictationsPerDay_def)
  have 3: "avgWordsPerDay tz mr rows = (if ?A = 0 then 0 else exact_round (totalWords rows) (int ?A))"
    using w by (simp add: avgWordsPerDay_def)
  have 4: "avgDictationsPerDay tz mr rows = 10 \<and> avgWordsPerDay tz mr rows = 1000"
    if "?A = 3" "?T = 30" "totalWords rows = 3000"
    using 2 3 that by (simp add: exact_round_div)
  from 1 2 3 4 show ?thesis by blast
qed

theorem daily_averages_witness:
  "list_all (\<lambda>r. 0 \<le> words_of r) march_rows
   \<and> activeDays 0 (getMonthRange 0 (2026, 3)) march_rows = 3
   \<and> totalDictations march_rows = 30 \<and> totalWords march_rows = 3000
   \<and> avgDictationsPerDay 0 (getMonthRange 0 (2026, 3)) march_rows = 10
   \<and> avgWordsPerDay 0 (getMonthRange 0 (2026, 3)) march_rows = 1000
   \<and> activeDays 0 (getMonthRange 0 (2026, 4)) march_rows = 0
   \<and> avgDictationsPerDay 0 (getMonthRange 0 (2026, 4)) march_rows = 0
   \<and> avgWordsPerDay 0 (getMonthRange 0 (2026, 4)) march_rows = 0"
proof -
  have n: "list_all (\<lambda>r. 0 \<le> words_of r) march_rows" by code_simp
  have w: "totalWords march_rows = 3000" by code_simp
  have l: "length march_rows = 30" by (simp add: march_rows_def)
  have a3: "activeDays 0 (getMonthRange 0 (2026, 3)) march_rows = 3" by code_simp
  have a0: "activeDays 0 (getMonthRange 0 (2026, 4)) march_rows = 0" by code_simp
  have wb: "totalWords march_rows < 2 ^ 52" using w by simp
  have lb: "length march_rows < 2 ^ 32" using l by simp
  have t: "totalDictations march_rows = 30" using l by (simp add: totalDictations_def)
  from daily_averages[OF n wb lb, of 0 "getMonthRange 0 (2026, 3)"]
       daily_averages[OF n wb lb, of 0 "getMonthRange 0 (2026, 4)"] n w a3 a0 t
  show ?thesis by simp
qed


section \<open>The application percentages\<close>

lemma total_count_update:
  "total_count (AList.update k v m) + (case map_of m k of None \<Rightarrow> 0 | Some b \<Rightarrow> count b)
   = total_count m + count v"
  by (induction m) (auto simp: total_count_def)

lemma total_count_app_step:
  assumes "\<not> inherited (app_name_of r)"
  shows "total_count (app_step m r) = Suc (total_count m)"
proof -
  obtain b where b: "app_step m r = AList.update (app_name_of r) b m"
    "count b = Suc (count_of m (app_name_of r))"
    using app_step_plain[OF assms, of m] by blast
  from total_count_update[of "app_name_of r" b m] b show ?thesis
    by (simp add: count_of_def)
qed

lemma total_count_appMap: "plain_apps rows \<Longrightarrow> total_count (appMap rows) = length rows"
proof -
  have "plain_apps rows \<Longrightarrow> total_count (foldl app_step m rows) = total_count m + length rows" for m
  proof (induction rows arbitrary: m)
    case Nil
    then show ?case by simp
  next
    case (Cons r rows)
    then have p: "\<not> inherited (app_name_of r)" and ps: "plain_apps rows"
      by (simp_all add: plain_apps_def)
    from Cons.IH[OF ps, of "app_step m r"] total_count_app_step[OF p, of m] show ?case by simp
  qed
  from this[of "[]"] show "plain_apps rows \<Longrightarrow> total_count (appMap rows) = length rows"
    by (simp add: appMap_def total_count_def)
qed

lemma sum_insort_key: "sum_list (map f (insort_key g x xs)) = f x + sum_list (map f xs)"
  for f :: "'a \<Rightarrow> nat"
  by (induction xs) simp_all

lemma sum_sort_key: "sum_list (map f (sort_key g xs)) = sum_list (map f xs)"
  for f :: "'a \<Rightarrow> nat"
  by (induction xs) (simp_all add: sum_insort_key)

lemma sum_filter_split:
  "sum_list (map f (filter P xs)) + sum_list (map f (filter (\<lambda>x. \<not> P x) xs)) = sum_list (map f xs)"
  for f :: "'a \<Rightarrow> nat"
  by (induction xs) simp_all

lemma total_count_entries: "total_count (entries idx m) = total_count m"
  using sum_filter_split[of "\<lambda>e. count (snd e)" "\<lambda>e. idx (fst e) \<noteq> None" m]
  by (simp add: total_count_def entries_def index_keys_def string_keys_def sum_sort_key
           del: not_None_eq)

lemma total_count_appsSorted: "plain_apps rows \<Longrightarrow> total_count (appsSorted rows) = length rows"
  using total_count_entries[of array_index "appMap rows"] total_count_appMap[of rows]
  by (simp add: appsSorted_def sort_desc_def total_count_def sum_sort_key)

lemma appsSorted_counts_pos:
  assumes "plain_apps rows" "e \<in> set (appsSorted rows)"
  shows "0 < count (snd e)"
proof -
  have e: "e \<in> set (appMap rows)"
    using assms(2) by (simp add: appsSorted_def set_sort_desc set_entries)
  then have "count (snd e) = occurrences (fst e) rows"
    using appMap_entry_count[OF assms(1), of "fst e" "snd e"] by simp
  moreover have "fst e \<in> set (map fst (appMap rows))" using e by simp
  then have "fst e \<in> set (map app_name_of rows)"
    using assms(1) by (simp add: keys_appMap set_first_seen)
  then have "filter (\<lambda>r. app_name_of r = fst e) rows \<noteq> []"
    by (auto simp: filter_empty_conv)
  ultimately show ?thesis by (simp add: occurrences_def)
qed

text \<open>
  Claim C9, as amended. For rows whose bundle identifiers and resolved names are not names of
  members of \<^verbatim>\<open>Object.prototype\<close>, every application percentage is an integer within one
  half of the exact percentage. It is the exact percentage rounded half up, except that it
  can be the integer below when the exact percentage lies exactly halfway between two
  integers: the quotient and the product are rounded to double precision before
  \<^verbatim>\<open>Math.round\<close> sees them. The percentages of \<open>N\<close> applications sum to 100 within
  \<open>N - 1\<close>.
\<close>

theorem percentages_nearest_and_sum:
  assumes p: "plain_apps rows" and ne: "rows \<noteq> []" and len: "length rows < 2 ^ 32"
  shows "list_all (\<lambda>e. \<bar>of_int (percentage (count (snd e)) (totalDictations rows))
                         - 100 * of_nat (count (snd e)) / of_nat (totalDictations rows) :: rat\<bar> \<le> 1 / 2
                     \<and> (percentage (count (snd e)) (totalDictations rows)
                          = exact_percentage (count (snd e)) (totalDictations rows)
                        \<or> (percentage (count (snd e)) (totalDictations rows)
                             = exact_percentage (count (snd e)) (totalDictations rows) - 1
                           \<and> (200 * int (count (snd e)) + int (totalDictations rows))
                                mod (2 * int (totalDictations rows)) = 0)))
            (appsSorted rows)
       \<and> \<bar>sum_list (percentages rows) - 100\<bar> \<le> int (length (appsSorted rows)) - 1"
proof -
  let ?t = "totalDictations rows"
  let ?cs = "map (\<lambda>e. count (snd e)) (appsSorted rows)"
  have t: "?t = length rows" by (simp add: totalDictations_def)
  have tpos: "0 < ?t" using ne t by simp
  have tb: "?t < 2 ^ 32" using len t by simp
  have pos: "\<forall>c\<in>set ?cs. 0 < c" using appsSorted_counts_pos[OF p] by auto
  have sum: "sum_list ?cs = ?t"
    using total_count_appsSorted[OF p] t by (simp add: total_count_def)
  have le: "count (snd e) \<le> ?t" if "e \<in> set (appsSorted rows)" for e
  proof -
    have "count (snd e) \<in> set ?cs" using that by force
    then show ?thesis using member_le_sum_list[of "count (snd e)" ?cs] sum by simp
  qed
  have each: "\<bar>of_int (percentage (count (snd e)) ?t)
                 - 100 * of_nat (count (snd e)) / of_nat ?t :: rat\<bar> \<le> 1 / 2
              \<and> (percentage (count (snd e)) ?t = exact_percentage (count (snd e)) ?t
                 \<or> (percentage (count (snd e)) ?t = exact_percentage (count (snd e)) ?t - 1
                    \<and> (200 * int (count (snd e)) + int ?t) mod (2 * int ?t) = 0))"
    if "e \<in> set (appsSorted rows)" for e
    using percentage_nearest[OF appsSorted_counts_pos[OF p that] le[OF that] tb]
          percentage_half_up[OF appsSorted_counts_pos[OF p that] le[OF that] tb]
    by (simp only: exact_percentage_div[OF tpos])
  have cs_ne: "?cs \<noteq> []"
  proof
    assume "?cs = []"
    then have "sum_list ?cs = 0" by simp
    with sum tpos show False by simp
  qed
  have "\<bar>sum_list (map (\<lambda>c. percentage c ?t) ?cs) - 100\<bar> \<le> int (length ?cs) - 1"
    using pos sum tb cs_ne by (rule percentage_sum)
  moreover have "map (\<lambda>c. percentage c ?t) ?cs = percentages rows"
    by (simp add: percentages_def o_def)
  ultimately have total: "\<bar>sum_list (percentages rows) - 100\<bar> \<le> int (length (appsSorted rows)) - 1"
    by simp
  from each total show ?thesis unfolding list_all_iff by blast
qed

theorem percentages_nearest_and_sum_witness:
  "plain_apps sample_rows \<and> sample_rows \<noteq> []
   \<and> percentages sample_rows = [50, 25, 25]
   \<and> length (appsSorted sample_rows) = 3
   \<and> \<bar>sum_list (percentages sample_rows) - 100\<bar> \<le> int (length (appsSorted sample_rows)) - 1"
proof -
  have p: "plain_apps sample_rows" by code_simp
  have ne: "sample_rows \<noteq> []" by (simp add: sample_rows_def)
  have lb: "length sample_rows < 2 ^ 32" by (simp add: sample_rows_def)
  have v: "percentages sample_rows = [50, 25, 25]" by code_simp
  have n: "length (appsSorted sample_rows) = 3" by code_simp
  from percentages_nearest_and_sum[OF p ne lb] p ne v n show ?thesis by simp
qed

text \<open>
  Claim C9 as stated fails: of 40 dictations, 23 are 57.5 percent, which rounds half up to
  58; the script computes \<^verbatim>\<open>(23 / 40) * 100\<close> = 57.49999999999999 in double precision
  and reports 57.
\<close>

theorem percentage_half_counterexample:
  "plain_apps forty_rows \<and> forty_rows \<noteq> [] \<and> totalDictations forty_rows = 40
   \<and> map (\<lambda>e. count (snd e)) (appsSorted forty_rows) = [23, 17]
   \<and> percentages forty_rows = [57, 43]
   \<and> map (\<lambda>e. exact_percentage (count (snd e)) (totalDictations forty_rows)) (appsSorted forty_rows) = [58, 43]
   \<and> percentage 23 40 = 57 \<and> exact_percentage 23 40 = 58"
  by code_simp

end
